theory Spec2Isabelle
  imports Main
begin

section \<open>Python primitives used by \<open>ner_cluster.py\<close>\<close>

text \<open>
  Text is a \<^typ>\<open>string\<close>: a list of characters, each a code point below 256. Python's
  \<open>str.isspace\<close> holds, in that range, for the characters 9 to 13, 28 to 32, 133 and 160;
  \<open>str.strip()\<close> removes the longest run of such characters from both ends.
\<close>

definition isspace :: "char \<Rightarrow> bool" where
  "isspace c =
     (let n = (of_char c :: nat)
      in (9 \<le> n \<and> n \<le> 13) \<or> (28 \<le> n \<and> n \<le> 32) \<or> n = 133 \<or> n = 160)"

definition strip :: "string \<Rightarrow> string" where
  "strip s = rev (dropWhile isspace (rev (dropWhile isspace s)))"

text \<open>
  \<open>s.split(sep)\<close> for a separator of one character: the pieces between the occurrences of
  the separator, empty pieces included; there is always at least one piece.
\<close>

fun split_from :: "string \<Rightarrow> string \<Rightarrow> char \<Rightarrow> string list" where
  "split_from piece [] sep = [piece]"
| "split_from piece (c # s) sep =
     (if c = sep then piece # split_from [] s sep else split_from (piece @ [c]) s sep)"

definition split :: "string \<Rightarrow> char \<Rightarrow> string list" where
  "split s sep = split_from [] s sep"

definition startswith :: "string \<Rightarrow> string \<Rightarrow> bool" where
  "startswith s p = (take (length p) s = p)"

text \<open>
  The exceptions the modelled code can raise: \<open>list.index\<close> raises \<open>ValueError\<close> for a
  value that is not in the list, indexing out of range raises \<open>IndexError\<close>.
\<close>

datatype error = ValueError | IndexError

text \<open>\<open>xs.index(x)\<close>: the position of the first element equal to \<open>x\<close>.\<close>

fun index :: "'a list \<Rightarrow> 'a \<Rightarrow> error + nat" where
  "index [] x = Inl ValueError"
| "index (y # ys) x =
     (if y = x then Inr 0
      else (case index ys x of Inl e \<Rightarrow> Inl e | Inr k \<Rightarrow> Inr (Suc k)))"

text \<open>\<open>xs[i]\<close> for an index that is not negative.\<close>

definition getitem :: "'a list \<Rightarrow> nat \<Rightarrow> error + 'a" where
  "getitem xs i = (if i < length xs then Inr (xs ! i) else Inl IndexError)"

text \<open>\<open>xs[i]\<close> for any integer: a negative index counts from the end.\<close>

definition getitem_int :: "'a list \<Rightarrow> int \<Rightarrow> error + 'a" where
  "getitem_int xs k =
     (if 0 \<le> k \<and> k < int (length xs) then Inr (xs ! nat k)
      else if k < 0 \<and> - int (length xs) \<le> k then Inr (xs ! nat (int (length xs) + k))
      else Inl IndexError)"


section \<open>The IOB corpus loader\<close>

text \<open>
  \<open>load_and_parse_iob\<close> downloads a text and parses it. The model starts from the text of
  the response (\<open>response.text\<close>); a failed download raises before any line is read and
  is not part of the model.

  The state of the loop over the lines is the four lists of the source, in the order
  \<open>(sentences, labels, sentence, label)\<close>. \<open>parse_line\<close> is one iteration of the loop.
\<close>

type_synonym parse_state =
  "string list list \<times> string list list \<times> string list \<times> string list"

fun parse_line :: "parse_state \<Rightarrow> string \<Rightarrow> parse_state" where
  "parse_line (sentences, labels, sentence, label) raw =
     (let line = strip raw in
      if line = [] then (sentences, labels, sentence, label)
      else if startswith line ''#'' then
        (if sentence \<noteq> []
         then (sentences @ [sentence], labels @ [label], [], [])
         else (sentences, labels, sentence, label))
      else
        (let parts = split line (CHR '','') in
         if length parts = 2
         then (sentences, labels, sentence @ [strip (parts ! 0)], label @ [strip (parts ! 1)])
         else (sentences, labels, sentence, label)))"

definition parse_lines :: "parse_state \<Rightarrow> string list \<Rightarrow> parse_state" where
  "parse_lines st data = foldl parse_line st data"

text \<open>The flush after the loop, and the pair the function returns.\<close>

fun finish :: "parse_state \<Rightarrow> string list list \<times> string list list" where
  "finish (sentences, labels, sentence, label) =
     (if sentence \<noteq> [] then (sentences @ [sentence], labels @ [label])
      else (sentences, labels))"

definition load_and_parse_iob :: "string \<Rightarrow> string list list \<times> string list list" where
  "load_and_parse_iob text =
     (let data = split text (CHR 0x0A) in finish (parse_lines ([], [], [], []) data))"

text \<open>
  The three kinds of line the loop tells apart once a line is stripped and not empty, and
  the two fields a data line contributes (lines 49 to 54 of the source).
\<close>

definition is_comment :: "string \<Rightarrow> bool" where
  "is_comment raw = startswith (strip raw) ''#''"

definition data_line :: "string \<Rightarrow> bool" where
  "data_line raw =
     (strip raw \<noteq> [] \<and> \<not> startswith (strip raw) ''#'' \<and>
      length (split (strip raw) (CHR '','')) = 2)"

definition token_of :: "string \<Rightarrow> string" where
  "token_of raw = strip (split (strip raw) (CHR '','') ! 0)"

definition tag_of :: "string \<Rightarrow> string" where
  "tag_of raw = strip (split (strip raw) (CHR '','') ! 1)"

text \<open>
  What every state of the loop satisfies: the flushed sentences are not empty and pair
  with tag lists of their own length, and so does the sentence in progress.
\<close>

fun parse_inv :: "parse_state \<Rightarrow> bool" where
  "parse_inv (sentences, labels, sentence, label) =
     (list_all2 (\<lambda>s l. s \<noteq> [] \<and> length s = length l) sentences labels \<and>
      length sentence = length label)"


section \<open>The label normalizer and the label vocabulary\<close>

definition expected_labels :: "string set" where
  "expected_labels = {''O'', ''B-Gene'', ''I-SNP'', ''I-Gene'', ''B-SNP'', ''B-RS''}"

definition clean_labels :: "string list \<Rightarrow> string list" where
  "clean_labels label_list =
     [if label \<in> expected_labels then label else ''O''. label \<leftarrow> label_list]"

text \<open>
  \<open>list(set(xs))\<close> holds each distinct element of \<open>xs\<close> once, in the order in which the
  set happens to iterate. The order is not fixed by the language, so the model says which
  lists can be the result, and every property below holds for each of them.
\<close>

definition list_of_set :: "'a list \<Rightarrow> 'a list \<Rightarrow> bool" where
  "list_of_set ys xs = (distinct ys \<and> set ys = set xs)"

text \<open>
  Lines 81 and 89: \<open>vocab\<close> is a possible value of \<open>cleaned_unique_labels\<close> for the tag
  lists \<open>train_labels\<close> of the training corpus.
\<close>

definition cleaned_unique_labels :: "string list \<Rightarrow> string list list \<Rightarrow> bool" where
  "cleaned_unique_labels vocab train_labels =
     list_of_set vocab (concat (map clean_labels train_labels))"


section \<open>Subword alignment\<close>

text \<open>
  The tokenizer is a collaborator: for the sentence at index \<open>i\<close> of a batch it gives
  \<open>word_ids(batch_index=i)\<close>, one entry per subword position, \<open>None\<close> for a special
  token and the index of the source word otherwise.

  \<open>align_label_ids\<close> is the loop over \<open>word_ids\<close> (lines 108 to 117), with the vocabulary
  \<open>cleaned_unique_labels\<close> as its first argument; \<open>label[word_idx]\<close> and
  \<open>cleaned_unique_labels.index\<close> raise as in Python.
\<close>

fun align_label_ids ::
  "string list \<Rightarrow> string list \<Rightarrow> nat option \<Rightarrow> int list \<Rightarrow> nat option list \<Rightarrow> error + int list"
where
  "align_label_ids vocab label previous_word_idx label_ids [] = Inr label_ids"
| "align_label_ids vocab label previous_word_idx label_ids (word_idx # word_ids) =
     (case word_idx of
        None \<Rightarrow> align_label_ids vocab label word_idx (label_ids @ [- 100]) word_ids
      | Some w \<Rightarrow>
          if word_idx \<noteq> previous_word_idx then
            (case getitem label w of
               Inl e \<Rightarrow> Inl e
             | Inr tag \<Rightarrow>
                 (case index vocab tag of
                    Inl e \<Rightarrow> Inl e
                  | Inr k \<Rightarrow>
                      align_label_ids vocab label word_idx (label_ids @ [int k]) word_ids))
          else align_label_ids vocab label word_idx (label_ids @ [- 100]) word_ids)"

definition align_sentence :: "string list \<Rightarrow> string list \<Rightarrow> nat option list \<Rightarrow> error + int list" where
  "align_sentence vocab label word_ids = align_label_ids vocab label None [] word_ids"

text \<open>The loop over the sentences of a batch (lines 105 to 118).\<close>

fun align_batch ::
  "string list \<Rightarrow> (nat \<Rightarrow> nat option list) \<Rightarrow> nat \<Rightarrow> string list list \<Rightarrow> int list list
     \<Rightarrow> error + int list list"
where
  "align_batch vocab word_ids i [] labels = Inr labels"
| "align_batch vocab word_ids i (label # rest) labels =
     (case align_sentence vocab label (word_ids i) of
        Inl e \<Rightarrow> Inl e
      | Inr label_ids \<Rightarrow> align_batch vocab word_ids (Suc i) rest (labels @ [label_ids]))"

definition tokenize_and_align_labels ::
  "string list \<Rightarrow> (nat \<Rightarrow> nat option list) \<Rightarrow> string list list \<Rightarrow> error + int list list"
where
  "tokenize_and_align_labels vocab word_ids examples_labels =
     align_batch vocab word_ids 0 examples_labels []"






text \<open>A tokenizer that gives every sentence one subword between two special tokens.\<close>

definition one_subword :: "nat \<Rightarrow> nat option list" where
  "one_subword i = [None, Some 0, None]"


section \<open>Decoding predictions\<close>

text \<open>
  \<open>predictions\<close> is an array of scores of shape batch \<times> positions \<times> classes and
  \<open>label_ids\<close> an array of gold label ids of shape batch \<times> positions; both are lists of
  rows here. Scores are compared by a linear order (the not-a-number value of floating
  point is outside the model).

  \<open>argmax\<close> over the last axis is the first position of the greatest score, and a
  \<open>ValueError\<close> where there is no score.
\<close>

definition argmax :: "'a::linorder list \<Rightarrow> error + int" where
  "argmax scores =
     (if scores = [] then Inl ValueError
      else (case index scores (Max (set scores)) of Inl e \<Rightarrow> Inl e | Inr k \<Rightarrow> Inr (int k)))"

fun sequence :: "(error + 'a) list \<Rightarrow> error + 'a list" where
  "sequence [] = Inr []"
| "sequence (r # rs) =
     (case r of
        Inl e \<Rightarrow> Inl e
      | Inr x \<Rightarrow> (case sequence rs of Inl e \<Rightarrow> Inl e | Inr xs \<Rightarrow> Inr (x # xs)))"

definition argmax_last :: "'a::linorder list list list \<Rightarrow> error + int list list" where
  "argmax_last predictions = sequence (map (\<lambda>row. sequence (map argmax row)) predictions)"

text \<open>\<open>a[i, j]\<close> and \<open>a[i][j]\<close> for indices that are not negative.\<close>

definition getitem2 :: "'a list list \<Rightarrow> nat \<Rightarrow> nat \<Rightarrow> error + 'a" where
  "getitem2 a i j = (case getitem a i of Inl e \<Rightarrow> Inl e | Inr row \<Rightarrow> getitem row j)"

text \<open>
  The loop over \<open>j\<close> (lines 176 to 179) for one \<open>i\<close>, on the pair
  \<open>(preds_list, out_label_list)\<close>; \<open>xs[i].append(x)\<close> replaces row \<open>i\<close> of \<open>xs\<close>.
\<close>

fun align_positions ::
  "string list \<Rightarrow> int list list \<Rightarrow> int list list \<Rightarrow> nat \<Rightarrow> nat list
     \<Rightarrow> string list list \<times> string list list \<Rightarrow> error + string list list \<times> string list list"
where
  "align_positions vocab preds label_ids i [] (preds_list, out_label_list) =
     Inr (preds_list, out_label_list)"
| "align_positions vocab preds label_ids i (j # js) (preds_list, out_label_list) =
     (case getitem2 label_ids i j of
        Inl e \<Rightarrow> Inl e
      | Inr gold \<Rightarrow>
          if gold \<noteq> - 100 then
            (case getitem_int vocab gold of
               Inl e \<Rightarrow> Inl e
             | Inr gold_tag \<Rightarrow>
                 (case getitem2 preds i j of
                    Inl e \<Rightarrow> Inl e
                  | Inr p \<Rightarrow>
                      (case getitem_int vocab p of
                         Inl e \<Rightarrow> Inl e
                       | Inr pred_tag \<Rightarrow>
                           align_positions vocab preds label_ids i js
                             (preds_list[i := preds_list ! i @ [pred_tag]],
                              out_label_list[i := out_label_list ! i @ [gold_tag]]))))
          else align_positions vocab preds label_ids i js (preds_list, out_label_list))"

text \<open>The loop over \<open>i\<close> (line 175).\<close>

fun align_rows ::
  "string list \<Rightarrow> int list list \<Rightarrow> int list list \<Rightarrow> nat \<Rightarrow> nat list
     \<Rightarrow> string list list \<times> string list list \<Rightarrow> error + string list list \<times> string list list"
where
  "align_rows vocab preds label_ids seq_len [] acc = Inr acc"
| "align_rows vocab preds label_ids seq_len (i # is) acc =
     (case align_positions vocab preds label_ids i [0 ..< seq_len] acc of
        Inl e \<Rightarrow> Inl e
      | Inr acc' \<Rightarrow> align_rows vocab preds label_ids seq_len is acc')"

definition align_predictions ::
  "string list \<Rightarrow> 'a::linorder list list list \<Rightarrow> int list list
     \<Rightarrow> error + string list list \<times> string list list"
where
  "align_predictions vocab predictions label_ids =
     (case argmax_last predictions of
        Inl e \<Rightarrow> Inl e
      | Inr preds \<Rightarrow>
          (let batch_size = length preds;
               seq_len = (case preds of [] \<Rightarrow> 0 | row # _ \<Rightarrow> length row);
               out_label_list = replicate batch_size [];
               preds_list = replicate batch_size []
           in align_rows vocab preds label_ids seq_len [0 ..< batch_size]
                (preds_list, out_label_list)))"

text \<open>
  The tag a label id decodes to: \<open>cleaned_unique_labels[k]\<close> where the index is in range.
\<close>

definition decode :: "string list \<Rightarrow> int \<Rightarrow> string" where
  "decode vocab k = vocab ! nat (if k < 0 then int (length vocab) + k else k)"


text \<open>
  The tags that row \<open>i\<close> of an array \<open>ids\<close> of label ids decodes to at the positions \<open>js\<close>
  whose gold label is not \<open>-100\<close>.
\<close>

definition decoded_row ::
  "string list \<Rightarrow> int list list \<Rightarrow> int list list \<Rightarrow> nat \<Rightarrow> nat list \<Rightarrow> string list"
where
  "decoded_row vocab ids label_ids i js =
     map (\<lambda>j. decode vocab (ids ! i ! j)) (filter (\<lambda>j. label_ids ! i ! j \<noteq> - 100) js)"


text \<open>
  The arrays \<open>align_predictions\<close> receives from the framework: every sequence of the
  batch has the same number of positions, every position has at least one score,
  \<open>label_ids\<close> has the shape of \<open>predictions\<close> without the last axis, and a gold label id is
  \<open>-100\<close> or an index of the vocabulary.
\<close>

definition well_shaped :: "string list \<Rightarrow> 'a list list list \<Rightarrow> int list list \<Rightarrow> bool" where
  "well_shaped vocab predictions label_ids =
     ((\<forall>row \<in> set predictions.
         length row = length (predictions ! 0) \<and> (\<forall>scores \<in> set row. scores \<noteq> [])) \<and>
      length label_ids = length predictions \<and>
      (\<forall>i < length predictions.
         length (label_ids ! i) = length (predictions ! 0) \<and>
         (\<forall>gold \<in> set (label_ids ! i).
            gold = - 100 \<or> (0 \<le> gold \<and> gold < int (length vocab)))))"


section \<open>The training driver\<close>

text \<open>
  \<open>train\<close> calls the tracking collaborator, the logger and the training framework. An
  exception has a message, and is an instance of \<open>Exception\<close> or of \<open>BaseException\<close> only
  (as \<open>KeyboardInterrupt\<close> and \<open>SystemExit\<close> are).

  The calls \<open>train\<close> itself makes are events: \<open>wandb.init\<close>, \<open>logger.error\<close>,
  \<open>wandb.alert\<close> and \<open>run.finish\<close> (\<open>wandb.log\<close> is a call of the body). Each of them
  can return or raise. The trace holds every call made so far with its outcome: \<open>None\<close>
  when it returned, the exception when it raised. An action takes the trace and returns
  normally or raises, with the trace it leaves.
\<close>

datatype exn = Exn (is_Exception: bool) (message: string)

datatype event =
    Init
  | Log string
  | LoggerError string
  | Alert string string string
  | Finish

type_synonym trace = "(event \<times> exn option) list"

type_synonym action = "trace \<Rightarrow> (exn + unit) \<times> trace"

text \<open>
  A call of a collaborator. Whether it raises is the collaborator's business: \<open>raises\<close>
  says, for the trace so far and the call, which exception it raises, if any.
\<close>

definition call :: "(trace \<Rightarrow> event \<Rightarrow> exn option) \<Rightarrow> event \<Rightarrow> action" where
  "call raises ev trace =
     (case raises trace ev of
        None \<Rightarrow> (Inr (), trace @ [(ev, None)])
      | Some e \<Rightarrow> (Inl e, trace @ [(ev, Some e)]))"

text \<open>
  \<open>try: body  except Exception as e: handler(e)  finally: final\<close>. The \<open>finally\<close> block
  runs on every path; an exception it raises replaces the pending one, and otherwise an
  exception that was not caught, or that the handler raised, propagates after it.
\<close>

definition and_finally :: "(exn + unit) \<times> trace \<Rightarrow> action \<Rightarrow> (exn + unit) \<times> trace" where
  "and_finally r final =
     (case final (snd r) of
        (Inl e, trace) \<Rightarrow> (Inl e, trace)
      | (Inr u, trace) \<Rightarrow> (fst r, trace))"

definition try_except_finally :: "action \<Rightarrow> (exn \<Rightarrow> action) \<Rightarrow> action \<Rightarrow> action" where
  "try_except_finally body handler final trace =
     (case body trace of
        (Inr u, trace1) \<Rightarrow> and_finally (Inr u, trace1) final
      | (Inl e, trace1) \<Rightarrow>
          if is_Exception e then and_finally (handler e trace1) final
          else and_finally (Inl e, trace1) final)"

text \<open>The two calls of the handler (lines 190 to 195), with the message of the exception.\<close>

definition error_log :: "exn \<Rightarrow> event" where
  "error_log e = LoggerError (''Error during training or evaluation: '' @ message e)"

definition error_alert :: "exn \<Rightarrow> event" where
  "error_alert e =
     Alert ''Training or Evaluation Error''
       (''An error occurred during training or evaluation: '' @ message e) ''ERROR''"

text \<open>
  The handler: \<open>logger.error\<close>, then \<open>wandb.alert\<close>. When \<open>logger.error\<close> raises,
  \<open>wandb.alert\<close> is not called.
\<close>

definition on_error :: "(trace \<Rightarrow> event \<Rightarrow> exn option) \<Rightarrow> exn \<Rightarrow> action" where
  "on_error raises e trace =
     (case call raises (error_log e) trace of
        (Inl e', trace1) \<Rightarrow> (Inl e', trace1)
      | (Inr u, trace1) \<Rightarrow> call raises (error_alert e) trace1)"

text \<open>
  \<open>train\<close>: \<open>wandb.init()\<close> gives the run and its configuration (an exception of
  \<open>wandb.init\<close> is outside the \<open>try\<close> and leaves \<open>train\<close> at once), the body of the
  \<open>try\<close> (lines 132 to 188) runs under the handler, and \<open>run.finish()\<close> is the
  \<open>finally\<close> block. The body is a parameter: any action, given the configuration.
\<close>

definition train :: "(trace \<Rightarrow> event \<Rightarrow> exn option) \<Rightarrow> 'c \<Rightarrow> ('c \<Rightarrow> action) \<Rightarrow> action" where
  "train raises config body trace =
     (case call raises Init trace of
        (Inl e, trace1) \<Rightarrow> (Inl e, trace1)
      | (Inr u, trace1) \<Rightarrow>
          try_except_finally (body config) (on_error raises) (call raises Finish) trace1)"

text \<open>Collaborators none of whose calls raises.\<close>

definition never_raises :: "trace \<Rightarrow> event \<Rightarrow> exn option" where
  "never_raises trace ev = None"

text \<open>Collaborators whose \<open>wandb.alert\<close> raises (the service cannot be reached).\<close>

definition alert_raises :: "trace \<Rightarrow> event \<Rightarrow> exn option" where
  "alert_raises trace ev =
     (case ev of Alert title body level \<Rightarrow> Some (Exn True ''ConnectionError'') | _ \<Rightarrow> None)"

text \<open>A body that is interrupted before it does anything.\<close>

definition interrupted :: "unit \<Rightarrow> action" where
  "interrupted config trace = (Inl (Exn False ''KeyboardInterrupt''), trace)"

text \<open>A body that fails with an error before it does anything.\<close>

definition failing :: "unit \<Rightarrow> action" where
  "failing config trace = (Inl (Exn True ''CUDA out of memory''), trace)"


section \<open>Properties of the corpus loader\<close>

lemma startswith_Nil: "\<not> startswith [] ''#''"
  by (simp add: startswith_def)

lemma parse_line_blank: "strip raw = [] \<Longrightarrow> parse_line st raw = st"
  by (cases st) simp

lemma parse_line_comment:
  "is_comment raw \<Longrightarrow>
   parse_line (sentences, labels, sentence, label) raw =
     (if sentence \<noteq> [] then (sentences @ [sentence], labels @ [label], [], [])
      else (sentences, labels, sentence, label))"
  using startswith_Nil by (auto simp: is_comment_def Let_def)

lemma parse_line_data:
  "data_line raw \<Longrightarrow>
   parse_line (sentences, labels, sentence, label) raw =
     (sentences, labels, sentence @ [token_of raw], label @ [tag_of raw])"
  by (simp add: data_line_def token_of_def tag_of_def Let_def)

lemma parse_line_dropped:
  "\<not> is_comment raw \<Longrightarrow> \<not> data_line raw \<Longrightarrow> parse_line st raw = st"
  by (cases st) (auto simp: data_line_def is_comment_def Let_def)

declare parse_line.simps [simp del]

lemma parse_line_cases:
  obtains (comment) "is_comment raw" | (data) "data_line raw" "\<not> is_comment raw"
  | (dropped) "\<not> is_comment raw" "\<not> data_line raw"
  by blast

lemma blank_is_dropped: "strip raw = [] \<Longrightarrow> \<not> data_line raw \<and> \<not> is_comment raw"
  by (simp add: data_line_def is_comment_def startswith_Nil)

lemma hash_is_comment: "is_comment (CHR ''#'' # rest)"
proof -
  have ns: "\<not> isspace (CHR ''#'')"
    by (simp add: isspace_def)
  have "dropWhile isspace (rev (CHR ''#'' # rest)) = ys @ [CHR ''#'']" if "ys = dropWhile isspace (rev rest)" for ys
    using that ns by (simp add: dropWhile_append3)
  then show ?thesis
    using ns by (simp add: is_comment_def strip_def startswith_def)
qed

lemma parse_line_inv: "parse_inv st \<Longrightarrow> parse_inv (parse_line st raw)"
proof (cases st)
  case (fields sentences labels sentence label)
  assume inv: "parse_inv st"
  show ?thesis
  proof (cases raw rule: parse_line_cases)
    case comment
    with inv fields show ?thesis
      by (auto simp: parse_line_comment list_all2_appendI)
  next
    case data
    with inv fields show ?thesis by (simp add: parse_line_data)
  next
    case dropped
    with inv show ?thesis by (simp add: parse_line_dropped)
  qed
qed

lemma parse_lines_Nil: "parse_lines st [] = st"
  by (simp add: parse_lines_def)

lemma parse_lines_Cons: "parse_lines st (raw # data) = parse_lines (parse_line st raw) data"
  by (simp add: parse_lines_def)

lemma parse_lines_snoc: "parse_lines st (data @ [raw]) = parse_line (parse_lines st data) raw"
  by (simp add: parse_lines_def)

lemma parse_lines_inv: "parse_inv st \<Longrightarrow> parse_inv (parse_lines st data)"
  by (induction data arbitrary: st) (simp_all add: parse_lines_Nil parse_lines_Cons parse_line_inv)

lemma parse_inv_init: "parse_inv ([], [], [], [])"
  by simp

lemma finish_inv:
  "parse_inv st \<Longrightarrow> finish st = (sentences, labels) \<Longrightarrow>
   list_all2 (\<lambda>s l. s \<noteq> [] \<and> length s = length l) sentences labels"
  by (cases st) (auto simp: list_all2_appendI split: if_splits)

lemma load_inv:
  "load_and_parse_iob text = (sentences, labels) \<Longrightarrow>
   list_all2 (\<lambda>s l. s \<noteq> [] \<and> length s = length l) sentences labels"
  unfolding load_and_parse_iob_def Let_def
  by (rule finish_inv [OF parse_lines_inv [OF parse_inv_init]])

lemma parse_lines_no_comment:
  "\<forall>raw \<in> set data. \<not> is_comment raw \<Longrightarrow>
   parse_lines (sentences, labels, sentence, label) data =
     (sentences, labels, sentence @ map token_of (filter data_line data),
      label @ map tag_of (filter data_line data))"
proof (induction data arbitrary: sentence label)
  case Nil
  show ?case by (simp add: parse_lines_Nil)
next
  case (Cons raw data)
  then have rest: "\<forall>r \<in> set data. \<not> is_comment r" and raw: "\<not> is_comment raw"
    by simp_all
  show ?case
  proof (cases "data_line raw")
    case True
    then show ?thesis
      using Cons.IH [OF rest] by (simp add: parse_lines_Cons parse_line_data)
  next
    case False
    then show ?thesis
      using Cons.IH [OF rest] raw by (simp add: parse_lines_Cons parse_line_dropped)
  qed
qed

lemma parse_lines_no_data:
  "\<forall>raw \<in> set data. \<not> data_line raw \<Longrightarrow>
   parse_lines (sentences, labels, [], label) data = (sentences, labels, [], label)"
proof (induction data)
  case Nil
  show ?case by (simp add: parse_lines_Nil)
next
  case (Cons raw data)
  then have "parse_line (sentences, labels, [], label) raw = (sentences, labels, [], label)"
    by (cases "is_comment raw") (simp_all add: parse_line_comment parse_line_dropped)
  with Cons show ?case by (simp add: parse_lines_Cons)
qed

text \<open>
  C4: every sentence that \<open>load_and_parse_iob\<close> returns has as many tokens as tags, and
  the list of sentences is as long as the list of tag lists.
\<close>

theorem load_and_parse_iob_aligned:
  "load_and_parse_iob text = (sentences, labels) \<Longrightarrow>
   length sentences = length labels \<and>
   (\<forall>i < length sentences. length (sentences ! i) = length (labels ! i))"
proof -
  assume "load_and_parse_iob text = (sentences, labels)"
  then have all2: "list_all2 (\<lambda>s l. s \<noteq> [] \<and> length s = length l) sentences labels"
    by (rule load_inv)
  then have "length sentences = length labels"
    by (rule list_all2_lengthD)
  moreover have "length (sentences ! i) = length (labels ! i)" if "i < length sentences" for i
    using list_all2_nthD [OF all2 that] by simp
  ultimately show ?thesis by simp
qed

lemma scenario_text:
  "load_and_parse_iob ''Arg123,B-Gene\<newline>His,I-Gene\<newline># next\<newline>The,O'' =
     ([[''Arg123'', ''His''], [''The'']], [[''B-Gene'', ''I-Gene''], [''O'']])"
  by code_simp

theorem load_and_parse_iob_aligned_witness:
  "load_and_parse_iob ''Arg123,B-Gene\<newline>His,I-Gene\<newline># next\<newline>The,O'' =
     ([[''Arg123'', ''His''], [''The'']], [[''B-Gene'', ''I-Gene''], [''O'']]) \<and>
   length [[''Arg123'', ''His''], [''The'']] = length [[''B-Gene'', ''I-Gene''], [''O'']] \<and>
   length ([[''Arg123'', ''His''], [''The'']] ! 0) = length ([[''B-Gene'', ''I-Gene''], [''O'']] ! 0) \<and>
   length ([[''Arg123'', ''His''], [''The'']] ! 1) = length ([[''B-Gene'', ''I-Gene''], [''O'']] ! 1)"
  using load_and_parse_iob_aligned [OF scenario_text] scenario_text by simp

text \<open>
  C10: no sentence and no tag list that \<open>load_and_parse_iob\<close> returns is empty, whatever
  the text; and a text none of whose lines is a data line (comment lines, blank lines and
  malformed lines only, or no line at all) gives no sentence.
\<close>

theorem load_and_parse_iob_no_empty_sentence:
  "[] \<notin> set (fst (load_and_parse_iob text)) \<and>
   [] \<notin> set (snd (load_and_parse_iob text)) \<and>
   ((\<forall>raw \<in> set (split text (CHR 0x0A)). \<not> data_line raw) \<longrightarrow>
      load_and_parse_iob text = ([], []))"
proof -
  obtain sentences labels where res: "load_and_parse_iob text = (sentences, labels)"
    by (cases "load_and_parse_iob text")
  then have all2: "list_all2 (\<lambda>s l. s \<noteq> [] \<and> length s = length l) sentences labels"
    by (rule load_inv)
  have "s \<noteq> []" if "s \<in> set sentences" for s
    using all2 that by (auto simp: list_all2_conv_all_nth in_set_conv_nth)
  moreover have "l \<noteq> []" if "l \<in> set labels" for l
    using all2 that by (auto simp: list_all2_conv_all_nth in_set_conv_nth)
  moreover have "load_and_parse_iob text = ([], [])"
    if "\<forall>raw \<in> set (split text (CHR 0x0A)). \<not> data_line raw"
    using parse_lines_no_data [OF that, of "[]" "[]" "[]"]
    by (simp add: load_and_parse_iob_def)
  ultimately show ?thesis
    using res by auto
qed

lemma comments_only_lines:
  "split ''# one\<newline>#\<newline>\<newline>no_tag\<newline>'' (CHR 0x0A) = [''# one'', ''#'', [], ''no_tag'', []]"
  by code_simp

lemma comments_only_no_data:
  "\<not> data_line ''# one'' \<and> \<not> data_line ''#'' \<and> \<not> data_line [] \<and> \<not> data_line ''no_tag''"
  by code_simp

theorem load_and_parse_iob_no_empty_sentence_witness:
  "load_and_parse_iob ''# one\<newline>#\<newline>\<newline>no_tag\<newline>'' = ([], [])"
  using load_and_parse_iob_no_empty_sentence [of "''# one\<newline>#\<newline>\<newline>no_tag\<newline>''"]
    comments_only_no_data
  by (simp add: comments_only_lines)

lemma next_is_comment: "is_comment ''# next''"
  by (rule hash_is_comment)

lemma scenario_lines:
  "split ''Arg123,B-Gene\<newline>His,I-Gene\<newline># next\<newline>The,O'' (CHR 0x0A) =
     [''Arg123,B-Gene'', ''His,I-Gene'', ''# next'', ''The,O'']"
  by code_simp

lemma scenario_before:
  "parse_lines ([], [], [], []) [''Arg123,B-Gene'', ''His,I-Gene''] =
     ([], [], [''Arg123'', ''His''], [''B-Gene'', ''I-Gene''])"
  by code_simp

lemma scenario_all:
  "parse_lines ([], [], [], []) [''Arg123,B-Gene'', ''His,I-Gene'', ''# next'', ''The,O''] =
     ([[''Arg123'', ''His'']], [[''B-Gene'', ''I-Gene'']], [''The''], [''O''])"
  by code_simp

lemma scenario_flushed:
  "parse_lines ([], [], [], []) [''Arg123,B-Gene'', ''His,I-Gene'', ''# next''] =
     ([[''Arg123'', ''His'']], [[''B-Gene'', ''I-Gene'']], [], [])"
  by code_simp

text \<open>
  C7: a comment line (a line that starts with \<open>#\<close> once stripped, so also a raw line that
  starts with \<open>#\<close>) appends the sentence in progress and its tags to the results exactly
  when the sentence is not empty, leaves the accumulators empty and adds no token; the
  result of the function is the state after the last line with the sentence in progress
  appended when it is not empty. In the scenario of the four lines the first sentence is
  flushed at the comment and \<open>The\<close> starts the second.
\<close>

theorem comment_line_flushes:
  "(is_comment raw \<longrightarrow>
      parse_lines ([], [], [], []) before = (sentences, labels, sentence, label) \<longrightarrow>
      parse_lines ([], [], [], []) (before @ [raw]) =
        (if sentence \<noteq> [] then (sentences @ [sentence], labels @ [label], [], [])
         else (sentences, labels, [], []))) \<and>
   is_comment (CHR ''#'' # rest) \<and>
   (parse_lines ([], [], [], []) (split text (CHR 0x0A)) = (sentences', labels', sentence', label') \<longrightarrow>
      load_and_parse_iob text =
        (if sentence' \<noteq> [] then (sentences' @ [sentence'], labels' @ [label'])
         else (sentences', labels'))) \<and>
   parse_lines ([], [], [], []) [''Arg123,B-Gene'', ''His,I-Gene''] =
     ([], [], [''Arg123'', ''His''], [''B-Gene'', ''I-Gene'']) \<and>
   parse_lines ([], [], [], []) [''Arg123,B-Gene'', ''His,I-Gene'', ''# next''] =
     ([[''Arg123'', ''His'']], [[''B-Gene'', ''I-Gene'']], [], []) \<and>
   parse_lines ([], [], [], []) [''Arg123,B-Gene'', ''His,I-Gene'', ''# next'', ''The,O''] =
     ([[''Arg123'', ''His'']], [[''B-Gene'', ''I-Gene'']], [''The''], [''O'']) \<and>
   load_and_parse_iob ''Arg123,B-Gene\<newline>His,I-Gene\<newline># next\<newline>The,O'' =
     ([[''Arg123'', ''His''], [''The'']], [[''B-Gene'', ''I-Gene''], [''O'']])"
proof -
  have flush: "parse_lines ([], [], [], []) (before @ [raw]) =
        (if sentence \<noteq> [] then (sentences @ [sentence], labels @ [label], [], [])
         else (sentences, labels, [], []))"
    if c: "is_comment raw"
      and st: "parse_lines ([], [], [], []) before = (sentences, labels, sentence, label)"
  proof -
    have "parse_inv (sentences, labels, sentence, label)"
      using parse_lines_inv [OF parse_inv_init, of before] st by simp
    then have "sentence = [] \<Longrightarrow> label = []"
      by simp
    then show ?thesis
      using c st by (auto simp: parse_lines_snoc parse_line_comment)
  qed
  have final: "load_and_parse_iob text =
        (if sentence' \<noteq> [] then (sentences' @ [sentence'], labels' @ [label'])
         else (sentences', labels'))"
    if "parse_lines ([], [], [], []) (split text (CHR 0x0A)) = (sentences', labels', sentence', label')"
    using that by (simp add: load_and_parse_iob_def)
  show ?thesis
    using flush final hash_is_comment scenario_before scenario_flushed scenario_all scenario_text
    by blast
qed

theorem comment_line_flushes_witness:
  "is_comment ''# next'' \<and>
   parse_lines ([], [], [], []) [''Arg123,B-Gene'', ''His,I-Gene''] =
     ([], [], [''Arg123'', ''His''], [''B-Gene'', ''I-Gene'']) \<and>
   parse_lines ([], [], [], []) ([''Arg123,B-Gene'', ''His,I-Gene''] @ [''# next'']) =
     ([] @ [[''Arg123'', ''His'']], [] @ [[''B-Gene'', ''I-Gene'']], [], []) \<and>
   load_and_parse_iob ''Arg123,B-Gene\<newline>His,I-Gene\<newline># next\<newline>The,O'' =
     ([[''Arg123'', ''His'']] @ [[''The'']], [[''B-Gene'', ''I-Gene'']] @ [[''O'']])"
  using comment_line_flushes [of "''# next''" "[''Arg123,B-Gene'', ''His,I-Gene'']"
      "[]" "[]" "[''Arg123'', ''His'']" "[''B-Gene'', ''I-Gene'']" "[]"
      "''Arg123,B-Gene\<newline>His,I-Gene\<newline># next\<newline>The,O''"
      "[[''Arg123'', ''His'']]" "[[''B-Gene'', ''I-Gene'']]" "[''The'']" "[''O'']"]
    next_is_comment scenario_before scenario_all
  by (simp add: scenario_lines)

text \<open>
  C8: a blank line (empty once stripped) leaves the state of the loop as it is: no token,
  no flush. Lines among which there is no comment line all go to the sentence in
  progress: the flushed sentences stay as they are, and the sentence in progress gains
  the token of each data line, in order, whatever blank lines stand between them.
\<close>

theorem blank_line_skipped:
  "(strip raw = [] \<longrightarrow>
      parse_line st raw = st \<and> \<not> data_line raw \<and> \<not> is_comment raw) \<and>
   ((\<forall>raw \<in> set data. \<not> is_comment raw) \<longrightarrow>
      parse_lines (sentences, labels, sentence, label) data =
        (sentences, labels, sentence @ map token_of (filter data_line data),
         label @ map tag_of (filter data_line data)))"
  using parse_line_blank [of raw st] blank_is_dropped [of raw]
    parse_lines_no_comment [of data sentences labels sentence label]
  by blast

lemma blank_lines_example:
  "strip '' '' = [] \<and>
   \<not> is_comment ''His,I-Gene'' \<and> \<not> is_comment [] \<and> \<not> is_comment '' '' \<and>
   \<not> is_comment ''The,O'' \<and>
   filter data_line [''His,I-Gene'', [], '' '', ''The,O''] = [''His,I-Gene'', ''The,O''] \<and>
   map token_of [''His,I-Gene'', ''The,O''] = [''His'', ''The''] \<and>
   map tag_of [''His,I-Gene'', ''The,O''] = [''I-Gene'', ''O'']"
  by code_simp

theorem blank_line_skipped_witness:
  "strip '' '' = [] \<and>
   parse_line ([], [], [''Arg123''], [''B-Gene'']) '' '' = ([], [], [''Arg123''], [''B-Gene'']) \<and>
   parse_lines ([], [], [''Arg123''], [''B-Gene'']) [''His,I-Gene'', [], '' '', ''The,O''] =
     ([], [], [''Arg123'', ''His'', ''The''], [''B-Gene'', ''I-Gene'', ''O''])"
  using blank_line_skipped [of "'' ''" "([], [], [''Arg123''], [''B-Gene''])"
      "[''His,I-Gene'', [], '' '', ''The,O'']" "[]" "[]" "[''Arg123'']" "[''B-Gene'']"]
    blank_lines_example
  by simp


section \<open>Properties of the label normalizer\<close>

lemma O_expected: "''O'' \<in> expected_labels"
  by (simp add: expected_labels_def)

lemma clean_labels_nth:
  "i < length label_list \<Longrightarrow>
   clean_labels label_list ! i =
     (if label_list ! i \<in> expected_labels then label_list ! i else ''O'')"
  by (simp add: clean_labels_def)

lemma clean_labels_append: "clean_labels (xs @ ys) = clean_labels xs @ clean_labels ys"
  by (simp add: clean_labels_def)

lemma set_clean_labels: "set (clean_labels label_list) \<subseteq> expected_labels"
  using O_expected by (auto simp: clean_labels_def)

text \<open>
  C5: \<open>clean_labels\<close> keeps the length of its input and works position by position
  (so the order is kept): a tag of the allowed set stays, any other tag becomes \<open>O\<close>.
  The allowed set is the six tags of the claim. The function is a total function of its
  input list: the source has no failing branch, and the model has none. \<open>B-Disease\<close> is
  not allowed, so each occurrence becomes \<open>O\<close>.
\<close>

theorem clean_labels_pointwise:
  "expected_labels = {''O'', ''B-Gene'', ''I-Gene'', ''B-SNP'', ''I-SNP'', ''B-RS''} \<and>
   length (clean_labels label_list) = length label_list \<and>
   (\<forall>i < length label_list.
      (label_list ! i \<in> expected_labels \<longrightarrow> clean_labels label_list ! i = label_list ! i) \<and>
      (label_list ! i \<notin> expected_labels \<longrightarrow> clean_labels label_list ! i = ''O'')) \<and>
   ''B-Disease'' \<notin> expected_labels \<and>
   clean_labels (xs @ [''B-Disease''] @ ys) = clean_labels xs @ [''O''] @ clean_labels ys"
proof -
  have "expected_labels = {''O'', ''B-Gene'', ''I-Gene'', ''B-SNP'', ''I-SNP'', ''B-RS''}"
    unfolding expected_labels_def by blast
  moreover have "length (clean_labels label_list) = length label_list"
    by (simp add: clean_labels_def)
  moreover have out: "''B-Disease'' \<notin> expected_labels"
    by (simp add: expected_labels_def)
  moreover have "clean_labels (xs @ [''B-Disease''] @ ys) = clean_labels xs @ [''O''] @ clean_labels ys"
    using out by (simp add: clean_labels_append) (simp add: clean_labels_def)
  ultimately show ?thesis
    by (simp add: clean_labels_nth)
qed

lemma clean_labels_example:
  "clean_labels [''B-Gene'', ''B-Disease'', ''O'', ''B-Disease''] = [''B-Gene'', ''O'', ''O'', ''O''] \<and>
   ''B-Gene'' \<in> expected_labels"
  by (simp add: clean_labels_def expected_labels_def)

theorem clean_labels_pointwise_witness:
  "(0::nat) < length [''B-Gene'', ''B-Disease'', ''O'', ''B-Disease''] \<and>
   (1::nat) < length [''B-Gene'', ''B-Disease'', ''O'', ''B-Disease''] \<and>
   [''B-Gene'', ''B-Disease'', ''O'', ''B-Disease''] ! 0 \<in> expected_labels \<and>
   [''B-Gene'', ''B-Disease'', ''O'', ''B-Disease''] ! 1 \<notin> expected_labels \<and>
   clean_labels [''B-Gene'', ''B-Disease'', ''O'', ''B-Disease''] ! 0 = ''B-Gene'' \<and>
   clean_labels [''B-Gene'', ''B-Disease'', ''O'', ''B-Disease''] ! 1 = ''O'' \<and>
   clean_labels [''B-Gene'', ''B-Disease'', ''O'', ''B-Disease''] = [''B-Gene'', ''O'', ''O'', ''O'']"
  using clean_labels_pointwise [of "[''B-Gene'', ''B-Disease'', ''O'', ''B-Disease'']" "[]" "[]"]
    clean_labels_example
  by simp

text \<open>
  C6: cleaning a cleaned list changes nothing, and every tag of a cleaned list is in the
  allowed set.
\<close>

theorem clean_labels_idempotent:
  "clean_labels (clean_labels x) = clean_labels x \<and> set (clean_labels x) \<subseteq> expected_labels"
proof -
  have "clean_labels (clean_labels x) = clean_labels x"
    using O_expected by (induction x) (simp_all add: clean_labels_def)
  then show ?thesis
    using set_clean_labels by simp
qed

section \<open>Properties of the vocabulary lookup and of subword alignment\<close>

lemma index_Inr:
  "index xs x = Inr k \<Longrightarrow> k < length xs \<and> xs ! k = x \<and> (\<forall>j < k. xs ! j \<noteq> x)"
proof (induction xs arbitrary: k)
  case Nil
  then show ?case by simp
next
  case (Cons y ys)
  show ?case
  proof (cases "y = x")
    case True
    with Cons.prems show ?thesis by simp
  next
    case False
    with Cons.prems obtain k' where k': "index ys x = Inr k'" "k = Suc k'"
      by (auto split: sum.splits)
    from Cons.IH [OF k'(1)] False k'(2) show ?thesis
      by (auto simp: nth_Cons split: nat.splits)
  qed
qed

lemma index_member: "x \<in> set xs \<Longrightarrow> \<exists>k. index xs x = Inr k"
  by (induction xs) (auto split: sum.splits)

lemma index_not_member: "x \<notin> set xs \<Longrightarrow> index xs x = Inl ValueError"
  by (induction xs) auto

lemma index_Inr_member: "index xs x = Inr k \<Longrightarrow> x \<in> set xs"
  using index_Inr [of xs x k] by (auto simp: in_set_conv_nth)

lemma align_step_None:
  "align_label_ids vocab label prev acc (None # ws) =
     align_label_ids vocab label None (acc @ [- 100]) ws"
  by simp

lemma align_step_same:
  "align_label_ids vocab label (Some w) acc (Some w # ws) =
     align_label_ids vocab label (Some w) (acc @ [- 100]) ws"
  by simp

lemma align_step_new:
  "prev \<noteq> Some w \<Longrightarrow>
   align_label_ids vocab label prev acc (Some w # ws) =
     (case getitem label w of
        Inl e \<Rightarrow> Inl e
      | Inr tag \<Rightarrow>
          (case index vocab tag of
             Inl e \<Rightarrow> Inl e
           | Inr k \<Rightarrow> align_label_ids vocab label (Some w) (acc @ [int k]) ws))"
  by auto



declare align_label_ids.simps(2) [simp del]












section \<open>The vocabulary covers the training corpus\<close>

lemma align_label_ids_returns:
  "(\<And>w. Some w \<in> set ws \<Longrightarrow> w < length label \<and> label ! w \<in> set vocab) \<Longrightarrow>
   \<exists>out. align_label_ids vocab label prev acc ws = Inr out"
proof (induction ws arbitrary: prev acc)
  case Nil
  show ?case by simp
next
  case (Cons word_idx ws)
  have rest: "\<exists>out. align_label_ids vocab label p a ws = Inr out" for p a
    using Cons.IH [of p a] Cons.prems by simp
  show ?case
  proof (cases word_idx)
    case None
    show ?thesis
      unfolding None align_step_None using rest .
  next
    case (Some w)
    show ?thesis
    proof (cases "prev = Some w")
      case True
      show ?thesis
        unfolding Some True align_step_same using rest .
    next
      case False
      from Cons.prems [of w] Some have w: "w < length label" "label ! w \<in> set vocab"
        by simp_all
      from index_member [OF w(2)] obtain k where "index vocab (label ! w) = Inr k"
        by blast
      with w(1) show ?thesis
        unfolding Some align_step_new [OF False] using rest by (simp add: getitem_def)
    qed
  qed
qed

lemma align_batch_returns:
  "(\<And>s. s < length examples_labels \<Longrightarrow>
      \<exists>out. align_sentence vocab (examples_labels ! s) (word_ids (n + s)) = Inr out) \<Longrightarrow>
   \<exists>labels. align_batch vocab word_ids n examples_labels acc = Inr labels"
proof (induction examples_labels arbitrary: n acc)
  case Nil
  show ?case by simp
next
  case (Cons label rest)
  from Cons.prems [of 0] obtain out where out: "align_sentence vocab label (word_ids n) = Inr out"
    by auto
  have "\<exists>r. align_sentence vocab (rest ! s) (word_ids (Suc n + s)) = Inr r"
    if "s < length rest" for s
    using Cons.prems [of "Suc s"] that by simp
  from Cons.IH [of "Suc n" "acc @ [out]", OF this] out show ?case
    by simp
qed

lemma vocabulary_lookup:
  assumes "cleaned_unique_labels vocab train_labels"
    and "tag \<in> set (concat (map clean_labels train_labels))"
  shows "\<exists>k. index vocab tag = Inr k \<and> k < length vocab \<and> vocab ! k = tag"
proof -
  from assms have "tag \<in> set vocab"
    by (simp add: cleaned_unique_labels_def list_of_set_def)
  from index_member [OF this] obtain k where "index vocab tag = Inr k"
    by blast
  with index_Inr [OF this] show ?thesis
    by blast
qed

text \<open>
  C1, as amended: the vocabulary is built from the cleaned training corpus, so for every
  split whose rows are rows of the cleaned training corpus (the train and validation
  splits) every tag is in the vocabulary, the lookup returns its position, and
  \<open>tokenize_and_align_labels\<close> returns for every mapping whose word indices are within
  the sentences. A tag of the cleaned test corpus is in the allowed set, and its lookup
  succeeds exactly when the tag also occurs in the cleaned training corpus.
\<close>

theorem vocabulary_covers_training_splits:
  assumes "cleaned_unique_labels vocab train_labels"
  shows "(\<forall>rows. set rows \<subseteq> set (map clean_labels train_labels) \<longrightarrow>
        (\<forall>label \<in> set rows. \<forall>tag \<in> set label.
           \<exists>k. index vocab tag = Inr k \<and> k < length vocab \<and> vocab ! k = tag)) \<and>
     (\<forall>rows word_ids.
        set rows \<subseteq> set (map clean_labels train_labels) \<and>
        (\<forall>s < length rows. \<forall>w. Some w \<in> set (word_ids s) \<longrightarrow> w < length (rows ! s)) \<longrightarrow>
        (\<exists>labels. tokenize_and_align_labels vocab word_ids rows = Inr labels)) \<and>
     (\<forall>tag \<in> set (concat (map clean_labels test_labels)).
        tag \<in> expected_labels \<and>
        ((\<exists>k. index vocab tag = Inr k) = (tag \<in> set (concat (map clean_labels train_labels)))))"
proof -
  have vocab: "set vocab = set (concat (map clean_labels train_labels))"
    using assms by (simp add: cleaned_unique_labels_def list_of_set_def)
  have in_vocab: "tag \<in> set vocab"
    if "set rows \<subseteq> set (map clean_labels train_labels)" "label \<in> set rows" "tag \<in> set label"
    for rows label tag
    using that vocab by auto
  have lookups: "\<exists>k. index vocab tag = Inr k \<and> k < length vocab \<and> vocab ! k = tag"
    if "set rows \<subseteq> set (map clean_labels train_labels)" "label \<in> set rows" "tag \<in> set label"
    for rows label tag
  proof -
    from in_vocab [OF that] vocab have "tag \<in> set (concat (map clean_labels train_labels))"
      by simp
    from vocabulary_lookup [OF assms this] show ?thesis .
  qed
  have returns: "\<exists>labels. tokenize_and_align_labels vocab word_ids rows = Inr labels"
    if sub: "set rows \<subseteq> set (map clean_labels train_labels)"
      and within: "\<forall>s < length rows. \<forall>w. Some w \<in> set (word_ids s) \<longrightarrow> w < length (rows ! s)"
    for rows word_ids
  proof -
    have "\<exists>out. align_sentence vocab (rows ! s) (word_ids (0 + s)) = Inr out"
      if s: "s < length rows" for s
    proof -
      have "w < length (rows ! s) \<and> rows ! s ! w \<in> set vocab" if "Some w \<in> set (word_ids s)" for w
      proof -
        from within s that have w: "w < length (rows ! s)"
          by blast
        from s have "rows ! s \<in> set rows"
          by simp
        from in_vocab [OF sub this] w show ?thesis
          by simp
      qed
      from align_label_ids_returns [of "word_ids s" "rows ! s" vocab None "[]", OF this]
      show ?thesis
        by (simp add: align_sentence_def)
    qed
    from align_batch_returns [of rows vocab word_ids 0 "[]", OF this] show ?thesis
      by (simp add: tokenize_and_align_labels_def)
  qed
  have test: "tag \<in> expected_labels \<and>
      ((\<exists>k. index vocab tag = Inr k) = (tag \<in> set (concat (map clean_labels train_labels))))"
    if "tag \<in> set (concat (map clean_labels test_labels))" for tag
  proof -
    from that obtain row where "row \<in> set test_labels" "tag \<in> set (clean_labels row)"
      by auto
    with set_clean_labels [of row] have "tag \<in> expected_labels"
      by blast
    moreover have "(\<exists>k. index vocab tag = Inr k) = (tag \<in> set vocab)"
      using index_member [of tag vocab] index_Inr_member [of vocab tag] by blast
    ultimately show ?thesis
      using vocab by simp
  qed
  show ?thesis
    using lookups returns test by blast
qed

lemma example_vocabulary:
  "cleaned_unique_labels [''B-Gene'', ''O''] [[''O'', ''B-Gene''], [''B-Disease'']]"
  by (simp add: cleaned_unique_labels_def list_of_set_def clean_labels_def expected_labels_def)
    blast

lemma example_split:
  "set [[''O'', ''B-Gene'']] \<subseteq> set (map clean_labels [[''O'', ''B-Gene''], [''B-Disease'']]) \<and>
   index [''B-Gene'', ''O''] ''O'' = Inr 1 \<and>
   index [''B-Gene'', ''O''] ''B-Gene'' = Inr 0 \<and>
   tokenize_and_align_labels [''B-Gene'', ''O''] one_subword [[''O'', ''B-Gene'']] =
     Inr [[- 100, 1, - 100]]"
  by (simp add: clean_labels_def expected_labels_def tokenize_and_align_labels_def
      align_sentence_def one_subword_def align_step_None align_step_new getitem_def)

lemma example_test_tag:
  "''B-SNP'' \<in> set (concat (map clean_labels [[''B-SNP'']])) \<and>
   ''B-SNP'' \<in> expected_labels \<and>
   ''B-SNP'' \<notin> set (concat (map clean_labels [[''O'', ''B-Gene''], [''B-Disease'']])) \<and>
   index [''B-Gene'', ''O''] ''B-SNP'' = Inl ValueError"
  by (simp add: clean_labels_def expected_labels_def)

theorem vocabulary_covers_training_splits_witness:
  "cleaned_unique_labels [''B-Gene'', ''O''] [[''O'', ''B-Gene''], [''B-Disease'']] \<and>
   set [[''O'', ''B-Gene'']] \<subseteq> set (map clean_labels [[''O'', ''B-Gene''], [''B-Disease'']]) \<and>
   index [''B-Gene'', ''O''] ''O'' = Inr 1 \<and>
   index [''B-Gene'', ''O''] ''B-Gene'' = Inr 0 \<and>
   tokenize_and_align_labels [''B-Gene'', ''O''] one_subword [[''O'', ''B-Gene'']] =
     Inr [[- 100, 1, - 100]] \<and>
   ''B-SNP'' \<in> set (concat (map clean_labels [[''B-SNP'']])) \<and>
   ''B-SNP'' \<in> expected_labels \<and>
   ''B-SNP'' \<notin> set (concat (map clean_labels [[''O'', ''B-Gene''], [''B-Disease'']])) \<and>
   index [''B-Gene'', ''O''] ''B-SNP'' = Inl ValueError"
proof -
  note covers = vocabulary_covers_training_splits [OF example_vocabulary, of "[[''B-SNP'']]"]
  from covers example_test_tag
  have "''B-SNP'' \<in> expected_labels \<and>
      ((\<exists>k. index [''B-Gene'', ''O''] ''B-SNP'' = Inr k) =
       (''B-SNP'' \<in> set (concat (map clean_labels [[''O'', ''B-Gene''], [''B-Disease'']]))))"
    by blast
  with example_vocabulary example_split example_test_tag show ?thesis
    by blast
qed

text \<open>
  C1 as stated fails: with a training corpus whose only tag is \<open>O\<close> the vocabulary is
  \<open>[O]\<close>; the tag \<open>B-Gene\<close> of a test sentence is allowed, so cleaning keeps it, and it
  is not in the vocabulary: \<open>index\<close> raises \<open>ValueError\<close> and so does the alignment of
  the test sentence.
\<close>

theorem test_tag_not_in_vocabulary:
  "cleaned_unique_labels [''O''] [[''O'']] \<and>
   map clean_labels [[''B-Gene'']] = [[''B-Gene'']] \<and>
   ''B-Gene'' \<notin> set [''O''] \<and>
   index [''O''] ''B-Gene'' = Inl ValueError \<and>
   tokenize_and_align_labels [''O''] one_subword (map clean_labels [[''B-Gene'']]) =
     Inl ValueError"
  by (simp add: cleaned_unique_labels_def list_of_set_def clean_labels_def expected_labels_def
      tokenize_and_align_labels_def align_sentence_def one_subword_def
      align_step_None align_step_new getitem_def)

section \<open>Properties of decoding\<close>

lemma sequence_Inr:
  "sequence rs = Inr xs \<Longrightarrow>
   length xs = length rs \<and> (\<forall>i < length rs. rs ! i = Inr (xs ! i))"
proof (induction rs arbitrary: xs)
  case Nil
  then show ?case by simp
next
  case (Cons r rs)
  from Cons.prems obtain x xs' where r: "r = Inr x" and rest: "sequence rs = Inr xs'"
    and xs: "xs = x # xs'"
    by (auto split: sum.splits)
  from Cons.IH [OF rest] r xs show ?case
    by (auto simp: nth_Cons split: nat.splits)
qed

lemma argmax_last_nth:
  assumes "argmax_last predictions = Inr preds"
  shows "length preds = length predictions"
    and "i < length predictions \<Longrightarrow> length (preds ! i) = length (predictions ! i)"
    and "i < length predictions \<Longrightarrow> j < length (predictions ! i) \<Longrightarrow>
      argmax (predictions ! i ! j) = Inr (preds ! i ! j)"
proof -
  from sequence_Inr [OF assms [unfolded argmax_last_def]]
  have len: "length preds = length predictions"
    and rows: "\<And>i. i < length predictions \<Longrightarrow>
      sequence (map argmax (predictions ! i)) = Inr (preds ! i)"
    by simp_all
  show "length preds = length predictions"
    by (rule len)
  show "length (preds ! i) = length (predictions ! i)" if "i < length predictions"
    using sequence_Inr [OF rows [OF that]] by simp
  show "argmax (predictions ! i ! j) = Inr (preds ! i ! j)"
    if "i < length predictions" "j < length (predictions ! i)"
    using sequence_Inr [OF rows [OF that(1)]] that(2) by simp
qed

lemma getitem2_Inr:
  "(getitem2 a i j = Inr x) = (i < length a \<and> j < length (a ! i) \<and> x = a ! i ! j)"
  by (auto simp: getitem2_def getitem_def)

lemma getitem_int_decode: "getitem_int vocab k = Inr t \<Longrightarrow> t = decode vocab k"
  by (auto simp: getitem_int_def decode_def split: if_splits)

lemma align_positions_step:
  assumes "align_positions vocab preds label_ids i (j # js) (pl, ol) = Inr res"
  shows "i < length label_ids \<and> j < length (label_ids ! i) \<and>
     (label_ids ! i ! j = - 100 \<longrightarrow>
        align_positions vocab preds label_ids i js (pl, ol) = Inr res) \<and>
     (label_ids ! i ! j \<noteq> - 100 \<longrightarrow>
        i < length preds \<and> j < length (preds ! i) \<and>
        align_positions vocab preds label_ids i js
          (pl[i := pl ! i @ [decode vocab (preds ! i ! j)]],
           ol[i := ol ! i @ [decode vocab (label_ids ! i ! j)]]) = Inr res)"
proof -
  from assms obtain gold where gold: "getitem2 label_ids i j = Inr gold"
    by (cases "getitem2 label_ids i j") simp_all
  then have in_range: "i < length label_ids" "j < length (label_ids ! i)"
    and gold_eq: "gold = label_ids ! i ! j"
    by (simp_all add: getitem2_Inr)
  show ?thesis
  proof (cases "gold = - 100")
    case True
    with assms gold gold_eq in_range show ?thesis
      by simp
  next
    case False
    with assms gold obtain gold_tag where gt: "getitem_int vocab gold = Inr gold_tag"
      by (cases "getitem_int vocab gold") simp_all
    with assms gold False obtain p where p: "getitem2 preds i j = Inr p"
      by (cases "getitem2 preds i j") simp_all
    with assms gold False gt obtain pred_tag where pt: "getitem_int vocab p = Inr pred_tag"
      by (cases "getitem_int vocab p") simp_all
    from p have p_range: "i < length preds" "j < length (preds ! i)" and p_eq: "p = preds ! i ! j"
      by (simp_all add: getitem2_Inr)
    from assms gold False gt p pt
    have "align_positions vocab preds label_ids i js
        (pl[i := pl ! i @ [pred_tag]], ol[i := ol ! i @ [gold_tag]]) = Inr res"
      by simp
    with getitem_int_decode [OF gt] getitem_int_decode [OF pt] gold_eq p_eq p_range in_range False
    show ?thesis
      by simp
  qed
qed

declare align_positions.simps(2) [simp del]

lemma decoded_row_Nil: "decoded_row vocab ids label_ids i [] = []"
  by (simp add: decoded_row_def)

lemma decoded_row_skip:
  "label_ids ! i ! j = - 100 \<Longrightarrow>
   decoded_row vocab ids label_ids i (j # js) = decoded_row vocab ids label_ids i js"
  by (simp add: decoded_row_def)

lemma decoded_row_keep:
  "label_ids ! i ! j \<noteq> - 100 \<Longrightarrow>
   decoded_row vocab ids label_ids i (j # js) =
     decode vocab (ids ! i ! j) # decoded_row vocab ids label_ids i js"
  by (simp add: decoded_row_def)

lemma list_update_twice_append:
  "(xs[i := xs ! i @ a])[i := (xs[i := xs ! i @ a]) ! i @ b] = xs[i := xs ! i @ a @ b]"
  by (cases "i < length xs") (simp_all add: list_update_beyond)

lemma align_positions_result:
  "align_positions vocab preds label_ids i js (pl, ol) = Inr (pl', ol') \<Longrightarrow>
   pl' = pl[i := pl ! i @ decoded_row vocab preds label_ids i js] \<and>
   ol' = ol[i := ol ! i @ decoded_row vocab label_ids label_ids i js] \<and>
   (\<forall>j \<in> set js. i < length label_ids \<and> j < length (label_ids ! i) \<and>
      (label_ids ! i ! j \<noteq> - 100 \<longrightarrow> i < length preds \<and> j < length (preds ! i)))"
proof (induction js arbitrary: pl ol)
  case Nil
  then show ?case
    by (simp add: decoded_row_Nil)
next
  case (Cons j js)
  note step = align_positions_step [OF Cons.prems]
  show ?case
  proof (cases "label_ids ! i ! j = - 100")
    case True
    with step have "align_positions vocab preds label_ids i js (pl, ol) = Inr (pl', ol')"
      by simp
    from Cons.IH [OF this] step True show ?thesis
      by (simp add: decoded_row_skip)
  next
    case False
    with step have run: "align_positions vocab preds label_ids i js
        (pl[i := pl ! i @ [decode vocab (preds ! i ! j)]],
         ol[i := ol ! i @ [decode vocab (label_ids ! i ! j)]]) = Inr (pl', ol')"
      and range: "i < length preds" "j < length (preds ! i)"
      by simp_all
    have keep_p: "decoded_row vocab preds label_ids i (j # js) =
        [decode vocab (preds ! i ! j)] @ decoded_row vocab preds label_ids i js"
      and keep_o: "decoded_row vocab label_ids label_ids i (j # js) =
        [decode vocab (label_ids ! i ! j)] @ decoded_row vocab label_ids label_ids i js"
      using False by (simp_all add: decoded_row_keep)
    from Cons.IH [OF run]
    have "pl' = pl[i := pl ! i @ decoded_row vocab preds label_ids i (j # js)]"
      and "ol' = ol[i := ol ! i @ decoded_row vocab label_ids label_ids i (j # js)]"
      and "\<forall>j \<in> set js. i < length label_ids \<and> j < length (label_ids ! i) \<and>
        (label_ids ! i ! j \<noteq> - 100 \<longrightarrow> i < length preds \<and> j < length (preds ! i))"
      unfolding keep_p keep_o list_update_twice_append by simp_all
    with step range show ?thesis
      by simp
  qed
qed

lemma align_rows_result:
  "align_rows vocab preds label_ids seq_len rows (pl, ol) = Inr (pl', ol') \<Longrightarrow>
   distinct rows \<Longrightarrow>
   length pl' = length pl \<and> length ol' = length ol \<and>
   (\<forall>i < length pl. pl' ! i =
      (if i \<in> set rows then pl ! i @ decoded_row vocab preds label_ids i [0 ..< seq_len]
       else pl ! i)) \<and>
   (\<forall>i < length ol. ol' ! i =
      (if i \<in> set rows then ol ! i @ decoded_row vocab label_ids label_ids i [0 ..< seq_len]
       else ol ! i)) \<and>
   (\<forall>i \<in> set rows. \<forall>j < seq_len. i < length label_ids \<and> j < length (label_ids ! i) \<and>
      (label_ids ! i ! j \<noteq> - 100 \<longrightarrow> i < length preds \<and> j < length (preds ! i)))"
proof (induction rows arbitrary: pl ol)
  case Nil
  then show ?case by simp
next
  case (Cons i rows)
  from Cons.prems(1) obtain pl1 ol1
    where inner: "align_positions vocab preds label_ids i [0 ..< seq_len] (pl, ol) = Inr (pl1, ol1)"
      and outer: "align_rows vocab preds label_ids seq_len rows (pl1, ol1) = Inr (pl', ol')"
    by (auto split: sum.splits)
  from align_positions_result [OF inner]
  have pl1: "pl1 = pl[i := pl ! i @ decoded_row vocab preds label_ids i [0 ..< seq_len]]"
    and ol1: "ol1 = ol[i := ol ! i @ decoded_row vocab label_ids label_ids i [0 ..< seq_len]]"
    and range: "\<forall>j < seq_len. i < length label_ids \<and> j < length (label_ids ! i) \<and>
      (label_ids ! i ! j \<noteq> - 100 \<longrightarrow> i < length preds \<and> j < length (preds ! i))"
    by simp_all
  from Cons.prems(2) have fresh: "i \<notin> set rows" and dist: "distinct rows"
    by simp_all
  note ih = Cons.IH [OF outer dist]
  have len: "length pl' = length pl" "length ol' = length ol"
    using ih pl1 ol1 by simp_all
  have p: "pl' ! k =
      (if k \<in> set (i # rows) then pl ! k @ decoded_row vocab preds label_ids k [0 ..< seq_len]
       else pl ! k)" if k: "k < length pl" for k
  proof -
    from ih k pl1 have "pl' ! k =
        (if k \<in> set rows then pl1 ! k @ decoded_row vocab preds label_ids k [0 ..< seq_len]
         else pl1 ! k)"
      by simp
    with fresh k pl1 show ?thesis
      by (cases "k = i") auto
  qed
  have q: "ol' ! k =
      (if k \<in> set (i # rows)
       then ol ! k @ decoded_row vocab label_ids label_ids k [0 ..< seq_len]
       else ol ! k)" if k: "k < length ol" for k
  proof -
    from ih k ol1 have "ol' ! k =
        (if k \<in> set rows
         then ol1 ! k @ decoded_row vocab label_ids label_ids k [0 ..< seq_len]
         else ol1 ! k)"
      by simp
    with fresh k ol1 show ?thesis
      by (cases "k = i") auto
  qed
  from ih range have r: "\<forall>k \<in> set (i # rows). \<forall>j < seq_len.
      k < length label_ids \<and> j < length (label_ids ! k) \<and>
      (label_ids ! k ! j \<noteq> - 100 \<longrightarrow> k < length preds \<and> j < length (preds ! k))"
    by simp
  from len p q r show ?case
    by blast
qed

lemma decoded_row_take:
  assumes "n \<le> length (label_ids ! i)"
  shows "decoded_row vocab label_ids label_ids i [0 ..< n] =
     map (decode vocab) (filter (\<lambda>g. g \<noteq> - 100) (take n (label_ids ! i)))"
proof -
  have "take n (label_ids ! i) = map (\<lambda>j. label_ids ! i ! j) [0 ..< n]"
    using assms by (intro nth_equalityI) simp_all
  then show ?thesis
    by (simp add: decoded_row_def filter_map comp_def)
qed

lemma align_predictions_rows:
  assumes "align_predictions vocab predictions label_ids = Inr (preds_list, out_label_list)"
  obtains preds where "argmax_last predictions = Inr preds"
    and "length preds_list = length predictions"
    and "length out_label_list = length predictions"
    and "\<And>i. i < length predictions \<Longrightarrow>
      preds_list ! i = decoded_row vocab preds label_ids i [0 ..< length (predictions ! 0)]"
    and "\<And>i. i < length predictions \<Longrightarrow>
      out_label_list ! i =
        decoded_row vocab label_ids label_ids i [0 ..< length (predictions ! 0)]"
    and "\<And>i j. i < length predictions \<Longrightarrow> j < length (predictions ! 0) \<Longrightarrow>
      i < length label_ids \<and> j < length (label_ids ! i) \<and>
      (label_ids ! i ! j \<noteq> - 100 \<longrightarrow> j < length (predictions ! i))"
proof -
  from assms obtain preds where preds: "argmax_last predictions = Inr preds"
    by (cases "argmax_last predictions") (simp_all add: align_predictions_def)
  note shape = argmax_last_nth [OF preds]
  define seq_len where "seq_len = (case preds of [] \<Rightarrow> 0 | row # _ \<Rightarrow> length row)"
  have seq_len: "seq_len = length (predictions ! 0)" if "i < length predictions" for i
  proof -
    from that shape(1) obtain row rest where "preds = row # rest"
      by (cases preds) auto
    moreover from that have "0 < length predictions"
      by (cases predictions) simp_all
    ultimately show ?thesis
      using shape(2) [of 0] by (simp add: seq_len_def)
  qed
  from assms preds
  have run: "align_rows vocab preds label_ids seq_len [0 ..< length preds]
      (replicate (length preds) [], replicate (length preds) []) =
      Inr (preds_list, out_label_list)"
    by (simp add: align_predictions_def seq_len_def Let_def)
  from align_rows_result [OF run] shape(1)
  have len: "length preds_list = length predictions" "length out_label_list = length predictions"
    and p: "\<And>i. i < length predictions \<Longrightarrow>
      preds_list ! i = decoded_row vocab preds label_ids i [0 ..< seq_len]"
    and q: "\<And>i. i < length predictions \<Longrightarrow>
      out_label_list ! i = decoded_row vocab label_ids label_ids i [0 ..< seq_len]"
    and r: "\<And>i j. i < length predictions \<Longrightarrow> j < seq_len \<Longrightarrow>
      i < length label_ids \<and> j < length (label_ids ! i) \<and>
      (label_ids ! i ! j \<noteq> - 100 \<longrightarrow> i < length preds \<and> j < length (preds ! i))"
    by simp_all
  show thesis
  proof (rule that [OF preds len])
    show "preds_list ! i = decoded_row vocab preds label_ids i [0 ..< length (predictions ! 0)]"
      if "i < length predictions" for i
      using p [OF that] seq_len [OF that] by simp
    show "out_label_list ! i =
        decoded_row vocab label_ids label_ids i [0 ..< length (predictions ! 0)]"
      if "i < length predictions" for i
      using q [OF that] seq_len [OF that] by simp
    show "i < length label_ids \<and> j < length (label_ids ! i) \<and>
        (label_ids ! i ! j \<noteq> - 100 \<longrightarrow> j < length (predictions ! i))"
      if "i < length predictions" "j < length (predictions ! 0)" for i j
      using r [of i j] that seq_len [OF that(1)] shape(2) [OF that(1)] by simp
  qed
qed

lemma align_predictions_same_lists:
  assumes "align_predictions vocab predictions label_ids = Inr (preds_list, out_label_list)"
    and "\<forall>i j gold scores.
      getitem2 label_ids i j = Inr gold \<and> gold \<noteq> - 100 \<and>
      getitem2 predictions i j = Inr scores \<longrightarrow> argmax scores = Inr gold"
  shows "preds_list = out_label_list \<and>
     length out_label_list = length predictions \<and>
     (\<forall>i < length predictions.
        out_label_list ! i =
          map (decode vocab)
            (filter (\<lambda>gold. gold \<noteq> - 100) (take (length (predictions ! 0)) (label_ids ! i))))"
proof -
  from align_predictions_rows [OF assms(1)] obtain preds
    where preds: "argmax_last predictions = Inr preds"
      and len_p: "length preds_list = length predictions"
      and len_o: "length out_label_list = length predictions"
      and p: "\<And>i. i < length predictions \<Longrightarrow>
        preds_list ! i = decoded_row vocab preds label_ids i [0 ..< length (predictions ! 0)]"
      and q: "\<And>i. i < length predictions \<Longrightarrow>
        out_label_list ! i =
          decoded_row vocab label_ids label_ids i [0 ..< length (predictions ! 0)]"
      and r: "\<And>i j. i < length predictions \<Longrightarrow> j < length (predictions ! 0) \<Longrightarrow>
        i < length label_ids \<and> j < length (label_ids ! i) \<and>
        (label_ids ! i ! j \<noteq> - 100 \<longrightarrow> j < length (predictions ! i))"
    by blast
  have same: "preds ! i ! j = label_ids ! i ! j"
    if i: "i < length predictions" and j: "j < length (predictions ! 0)"
      and keep: "label_ids ! i ! j \<noteq> - 100" for i j
  proof -
    from r [OF i j] keep have range: "i < length label_ids" "j < length (label_ids ! i)"
      "j < length (predictions ! i)"
      by simp_all
    then have "getitem2 label_ids i j = Inr (label_ids ! i ! j)"
      and "getitem2 predictions i j = Inr (predictions ! i ! j)"
      using i by (simp_all add: getitem2_Inr)
    with assms(2) keep have "argmax (predictions ! i ! j) = Inr (label_ids ! i ! j)"
      by blast
    with argmax_last_nth(3) [OF preds i range(3)] show ?thesis
      by simp
  qed
  have rows: "preds_list ! i = out_label_list ! i" if i: "i < length predictions" for i
  proof -
    have "decoded_row vocab preds label_ids i [0 ..< length (predictions ! 0)] =
        decoded_row vocab label_ids label_ids i [0 ..< length (predictions ! 0)]"
      unfolding decoded_row_def using same [OF i] by (intro map_cong) auto
    with p [OF i] q [OF i] show ?thesis
      by simp
  qed
  have eq: "preds_list = out_label_list"
    using len_p len_o rows by (intro nth_equalityI) simp_all
  have content: "out_label_list ! i =
      map (decode vocab)
        (filter (\<lambda>gold. gold \<noteq> - 100) (take (length (predictions ! 0)) (label_ids ! i)))"
    if i: "i < length predictions" for i
  proof -
    have "length (predictions ! 0) \<le> length (label_ids ! i)"
      using r [OF i] by (meson not_less order_refl less_le_trans leI)
    from decoded_row_take [OF this] q [OF i] show ?thesis
      by simp
  qed
  from eq len_o content show ?thesis
    by blast
qed

lemma sequence_returns:
  "(\<And>r. r \<in> set rs \<Longrightarrow> \<exists>x. r = Inr x) \<Longrightarrow> \<exists>xs. sequence rs = Inr xs"
proof (induction rs)
  case Nil
  show ?case by simp
next
  case (Cons r rs)
  from Cons.prems [of r] obtain x where "r = Inr x"
    by auto
  moreover from Cons.IH Cons.prems obtain xs where "sequence rs = Inr xs"
    by auto
  ultimately show ?case
    by simp
qed

lemma argmax_returns: "scores \<noteq> [] \<Longrightarrow> \<exists>k. argmax scores = Inr k"
proof -
  assume "scores \<noteq> []"
  then have "Max (set scores) \<in> set scores"
    by (intro Max_in) simp_all
  from index_member [OF this] obtain k where "index scores (Max (set scores)) = Inr k"
    by blast
  with \<open>scores \<noteq> []\<close> show ?thesis
    by (simp add: argmax_def)
qed

lemma argmax_last_returns:
  assumes "\<And>row scores. row \<in> set predictions \<Longrightarrow> scores \<in> set row \<Longrightarrow> scores \<noteq> []"
  shows "\<exists>preds. argmax_last predictions = Inr preds"
  unfolding argmax_last_def
proof (rule sequence_returns)
  fix r
  assume "r \<in> set (map (\<lambda>row. sequence (map argmax row)) predictions)"
  then obtain row where row: "row \<in> set predictions" and r: "r = sequence (map argmax row)"
    by auto
  have "\<exists>xs. sequence (map argmax row) = Inr xs"
  proof (rule sequence_returns)
    fix a
    assume "a \<in> set (map argmax row)"
    then obtain scores where "scores \<in> set row" "a = argmax scores"
      by auto
    with assms [OF row] argmax_returns [of scores] show "\<exists>k. a = Inr k"
      by simp
  qed
  with r show "\<exists>x. r = Inr x"
    by simp
qed

lemma getitem_int_returns:
  "0 \<le> k \<Longrightarrow> k < int (length vocab) \<Longrightarrow> \<exists>t. getitem_int vocab k = Inr t"
  by (simp add: getitem_int_def)

lemma align_positions_returns:
  assumes "\<And>j. j \<in> set js \<Longrightarrow>
      i < length label_ids \<and> j < length (label_ids ! i) \<and>
      (label_ids ! i ! j \<noteq> - 100 \<longrightarrow>
         (\<exists>t. getitem_int vocab (label_ids ! i ! j) = Inr t) \<and>
         i < length preds \<and> j < length (preds ! i) \<and>
         (\<exists>t. getitem_int vocab (preds ! i ! j) = Inr t))"
  shows "\<exists>res. align_positions vocab preds label_ids i js acc = Inr res"
  using assms
proof (induction js arbitrary: acc)
  case Nil
  show ?case by (cases acc) simp
next
  case (Cons j js)
  obtain pl ol where acc: "acc = (pl, ol)"
    by (cases acc)
  have rest: "\<exists>res. align_positions vocab preds label_ids i js a = Inr res" for a
  proof (rule Cons.IH)
    fix j'
    assume "j' \<in> set js"
    then have "j' \<in> set (j # js)"
      by simp
    then show "i < length label_ids \<and> j' < length (label_ids ! i) \<and>
      (label_ids ! i ! j' \<noteq> - 100 \<longrightarrow>
         (\<exists>t. getitem_int vocab (label_ids ! i ! j') = Inr t) \<and>
         i < length preds \<and> j' < length (preds ! i) \<and>
         (\<exists>t. getitem_int vocab (preds ! i ! j') = Inr t))"
      by (rule Cons.prems)
  qed
  from Cons.prems [of j] have range: "i < length label_ids" "j < length (label_ids ! i)"
    by simp_all
  then have gold: "getitem2 label_ids i j = Inr (label_ids ! i ! j)"
    by (simp add: getitem2_Inr)
  show ?case
  proof (cases "label_ids ! i ! j = - 100")
    case True
    with gold rest show ?thesis
      unfolding acc by (simp add: align_positions.simps(2))
  next
    case False
    with Cons.prems [of j] obtain gt pt
      where gt: "getitem_int vocab (label_ids ! i ! j) = Inr gt"
        and pr: "i < length preds" "j < length (preds ! i)"
        and pt: "getitem_int vocab (preds ! i ! j) = Inr pt"
      by auto
    from pr have p: "getitem2 preds i j = Inr (preds ! i ! j)"
      by (simp add: getitem2_Inr)
    from gold False gt p pt rest show ?thesis
      unfolding acc by (simp add: align_positions.simps(2))
  qed
qed

lemma align_rows_returns:
  assumes "\<And>i a. i \<in> set rows \<Longrightarrow>
      \<exists>res. align_positions vocab preds label_ids i [0 ..< seq_len] a = Inr res"
  shows "\<exists>res. align_rows vocab preds label_ids seq_len rows acc = Inr res"
  using assms
proof (induction rows arbitrary: acc)
  case Nil
  show ?case by simp
next
  case (Cons i rows)
  from Cons.prems [of i acc] obtain res
    where "align_positions vocab preds label_ids i [0 ..< seq_len] acc = Inr res"
    by auto
  moreover have "\<exists>r. align_rows vocab preds label_ids seq_len rows res = Inr r"
  proof (rule Cons.IH)
    fix k a
    assume "k \<in> set rows"
    then have "k \<in> set (i # rows)"
      by simp
    then show "\<exists>r. align_positions vocab preds label_ids k [0 ..< seq_len] a = Inr r"
      by (rule Cons.prems)
  qed
  ultimately show ?case
    by simp
qed

lemma align_predictions_returns:
  assumes ws: "well_shaped vocab predictions label_ids"
    and rt: "\<forall>i j gold scores.
      getitem2 label_ids i j = Inr gold \<and> gold \<noteq> - 100 \<and>
      getitem2 predictions i j = Inr scores \<longrightarrow> argmax scores = Inr gold"
  shows "\<exists>res. align_predictions vocab predictions label_ids = Inr res"
proof -
  from ws have rect: "\<And>row. row \<in> set predictions \<Longrightarrow> length row = length (predictions ! 0)"
    and scores: "\<And>row s. row \<in> set predictions \<Longrightarrow> s \<in> set row \<Longrightarrow> s \<noteq> []"
    and batch: "length label_ids = length predictions"
    and positions: "\<And>i. i < length predictions \<Longrightarrow>
      length (label_ids ! i) = length (predictions ! 0)"
    and valid: "\<And>i gold. i < length predictions \<Longrightarrow> gold \<in> set (label_ids ! i) \<Longrightarrow>
      gold = - 100 \<or> (0 \<le> gold \<and> gold < int (length vocab))"
    by (auto simp: well_shaped_def)
  have "\<exists>preds. argmax_last predictions = Inr preds"
  proof (rule argmax_last_returns)
    fix row s
    assume "row \<in> set predictions" "s \<in> set row"
    then show "s \<noteq> []"
      by (rule scores)
  qed
  then obtain preds where preds: "argmax_last predictions = Inr preds"
    by blast
  note shape = argmax_last_nth [OF preds]
  define seq_len where "seq_len = (case preds of [] \<Rightarrow> 0 | row # _ \<Rightarrow> length row)"
  have seq_len: "seq_len = length (predictions ! 0)" if "i < length predictions" for i
  proof -
    from that shape(1) obtain row rest where "preds = row # rest"
      by (cases preds) auto
    moreover from that have "0 < length predictions"
      by (cases predictions) simp_all
    ultimately show ?thesis
      using shape(2) [of 0] by (simp add: seq_len_def)
  qed
  have inner: "\<exists>res. align_positions vocab preds label_ids i [0 ..< seq_len] a = Inr res"
    if "i \<in> set [0 ..< length preds]" for i a
  proof (rule align_positions_returns)
    fix j
    assume "j \<in> set [0 ..< seq_len]"
    from that shape(1) have i: "i < length predictions"
      by simp
    with \<open>j \<in> set [0 ..< seq_len]\<close> seq_len have j: "j < length (predictions ! 0)"
      by simp
    from i have row: "predictions ! i \<in> set predictions"
      by simp
    from rect [OF row] j have j_row: "j < length (predictions ! i)"
      by simp
    from i batch have i_lab: "i < length label_ids"
      by simp
    from positions [OF i] j have j_lab: "j < length (label_ids ! i)"
      by simp
    have "(\<exists>t. getitem_int vocab (label_ids ! i ! j) = Inr t) \<and>
        i < length preds \<and> j < length (preds ! i) \<and>
        (\<exists>t. getitem_int vocab (preds ! i ! j) = Inr t)"
      if keep: "label_ids ! i ! j \<noteq> - 100"
    proof -
      from j_lab have "label_ids ! i ! j \<in> set (label_ids ! i)"
        by simp
      from valid [OF i this] keep
      have ok: "\<exists>t. getitem_int vocab (label_ids ! i ! j) = Inr t"
        by (simp add: getitem_int_returns)
      from i_lab j_lab i j_row
      have "getitem2 label_ids i j = Inr (label_ids ! i ! j)"
        and "getitem2 predictions i j = Inr (predictions ! i ! j)"
        by (simp_all add: getitem2_Inr)
      with rt keep have "argmax (predictions ! i ! j) = Inr (label_ids ! i ! j)"
        by blast
      with shape(3) [OF i j_row] have "preds ! i ! j = label_ids ! i ! j"
        by simp
      with ok i j_row shape(1) shape(2) [OF i] show ?thesis
        by simp
    qed
    with i_lab j_lab show "i < length label_ids \<and> j < length (label_ids ! i) \<and>
      (label_ids ! i ! j \<noteq> - 100 \<longrightarrow>
         (\<exists>t. getitem_int vocab (label_ids ! i ! j) = Inr t) \<and>
         i < length preds \<and> j < length (preds ! i) \<and>
         (\<exists>t. getitem_int vocab (preds ! i ! j) = Inr t))"
      by blast
  qed
  have "\<exists>res. align_rows vocab preds label_ids seq_len [0 ..< length preds]
      (replicate (length preds) [], replicate (length preds) []) = Inr res"
  proof (rule align_rows_returns)
    fix i a
    assume "i \<in> set [0 ..< length preds]"
    then show "\<exists>res. align_positions vocab preds label_ids i [0 ..< seq_len] a = Inr res"
      by (rule inner)
  qed
  then obtain res where "align_rows vocab preds label_ids seq_len [0 ..< length preds]
      (replicate (length preds) [], replicate (length preds) []) = Inr res"
    by blast
  with preds show ?thesis
    by (simp add: align_predictions_def seq_len_def Let_def)
qed

text \<open>
  C3: let the argmax of the scores be the gold label id at every position whose gold label
  id is not \<open>-100\<close>. Then whenever \<open>align_predictions\<close> returns, the two lists it returns
  are equal; they have one row per sequence of the batch, and row \<open>i\<close> holds the tags of
  the gold label ids of sequence \<open>i\<close> that are not \<open>-100\<close>, in order: the positions with
  \<open>-100\<close> are skipped in both. And it does return when the arrays are well shaped.
\<close>

theorem align_predictions_round_trip:
  assumes "\<forall>i j gold scores.
      getitem2 label_ids i j = Inr gold \<and> gold \<noteq> - 100 \<and>
      getitem2 predictions i j = Inr scores \<longrightarrow> argmax scores = Inr gold"
  shows "(\<forall>preds_list out_label_list.
        align_predictions vocab predictions label_ids = Inr (preds_list, out_label_list) \<longrightarrow>
        preds_list = out_label_list \<and>
        length out_label_list = length predictions \<and>
        (\<forall>i < length predictions.
           out_label_list ! i =
             map (decode vocab)
               (filter (\<lambda>gold. gold \<noteq> - 100)
                  (take (length (predictions ! 0)) (label_ids ! i))))) \<and>
     (well_shaped vocab predictions label_ids \<longrightarrow>
        (\<exists>tags. align_predictions vocab predictions label_ids = Inr (tags, tags)))"
proof -
  have same: "preds_list = out_label_list \<and>
      length out_label_list = length predictions \<and>
      (\<forall>i < length predictions.
         out_label_list ! i =
           map (decode vocab)
             (filter (\<lambda>gold. gold \<noteq> - 100)
                (take (length (predictions ! 0)) (label_ids ! i))))"
    if "align_predictions vocab predictions label_ids = Inr (preds_list, out_label_list)"
    for preds_list out_label_list
    using align_predictions_same_lists [OF that assms] .
  have returns: "\<exists>tags. align_predictions vocab predictions label_ids = Inr (tags, tags)"
    if "well_shaped vocab predictions label_ids"
  proof -
    from align_predictions_returns [OF that assms] obtain preds_list out_label_list
      where res: "align_predictions vocab predictions label_ids = Inr (preds_list, out_label_list)"
      by auto
    with same [OF res] show ?thesis
      by blast
  qed
  from same returns show ?thesis
    by blast
qed

lemma example_decoding:
  "align_predictions [''O'', ''B-SNP''] [[[1, 5], [7, 2], [0, 3 :: int]]] [[- 100, 0, 1]] =
     Inr ([[''O'', ''B-SNP'']], [[''O'', ''B-SNP'']])"
  by code_simp

lemma example_argmax:
  "argmax [7, 2 :: int] = Inr 0 \<and> argmax [0, 3 :: int] = Inr 1"
  by (simp add: argmax_def)

lemma example_gold_is_argmax:
  "\<forall>i j gold scores.
     getitem2 [[- 100, 0, 1]] i j = Inr gold \<and> gold \<noteq> - 100 \<and>
     getitem2 [[[1, 5], [7, 2], [0, 3 :: int]]] i j = Inr scores \<longrightarrow> argmax scores = Inr gold"
proof (intro allI impI, elim conjE)
  fix i j :: nat and gold :: int and scores :: "int list"
  assume g: "getitem2 [[- 100, 0, 1]] i j = Inr gold" and keep: "gold \<noteq> - 100"
    and s: "getitem2 [[[1, 5], [7, 2], [0, 3 :: int]]] i j = Inr scores"
  from g have i: "i = 0"
    by (simp add: getitem2_Inr)
  from g i have j: "j < 3"
    by (simp add: getitem2_Inr)
  from j consider "j = 0" | "j = 1" | "j = 2"
    by linarith
  then show "argmax scores = Inr gold"
  proof cases
    case 1
    with g i keep show ?thesis by (simp add: getitem2_Inr)
  next
    case 2
    with g s i example_argmax show ?thesis by (simp add: getitem2_Inr)
  next
    case 3
    with g s i example_argmax show ?thesis by (simp add: getitem2_Inr)
  qed
qed

lemma example_decoded:
  "map (decode [''O'', ''B-SNP''])
     (filter (\<lambda>gold. gold \<noteq> - 100) (take (length ([[[1, 5], [7, 2], [0, 3 :: int]]] ! 0)) ([[- 100, 0, 1]] ! 0))) =
   [''O'', ''B-SNP'']"
  by (simp add: decode_def)

lemma example_well_shaped:
  "well_shaped [''O'', ''B-SNP''] [[[1, 5], [7, 2], [0, 3 :: int]]] [[- 100, 0, 1]]"
  by (simp add: well_shaped_def)

theorem align_predictions_round_trip_witness:
  "well_shaped [''O'', ''B-SNP''] [[[1, 5], [7, 2], [0, 3 :: int]]] [[- 100, 0, 1]] \<and>
   align_predictions [''O'', ''B-SNP''] [[[1, 5], [7, 2], [0, 3 :: int]]] [[- 100, 0, 1]] =
     Inr ([[''O'', ''B-SNP'']], [[''O'', ''B-SNP'']]) \<and>
   argmax [7, 2 :: int] = Inr 0 \<and> argmax [0, 3 :: int] = Inr 1 \<and>
   [[''O'', ''B-SNP'']] ! 0 =
     map (decode [''O'', ''B-SNP''])
       (filter (\<lambda>gold. gold \<noteq> - 100)
          (take (length ([[[1, 5], [7, 2], [0, 3 :: int]]] ! 0)) ([[- 100, 0, 1]] ! 0)))"
  using align_predictions_round_trip [OF example_gold_is_argmax, of "[''O'', ''B-SNP'']"]
    example_decoding example_argmax example_well_shaped example_decoded
  by simp

section \<open>Properties of the training driver\<close>

lemma call_returns: "raises trace ev = None \<Longrightarrow> call raises ev trace = (Inr (), trace @ [(ev, None)])"
  by (simp add: call_def)

lemma call_raises: "raises trace ev = Some e \<Longrightarrow> call raises ev trace = (Inl e, trace @ [(ev, Some e)])"
  by (simp add: call_def)

lemma call_trace: "snd (call raises ev trace) = trace @ [(ev, raises trace ev)]"
  by (simp add: call_def split: option.splits)

lemma and_finally_Finish:
  "snd (and_finally r (call raises Finish)) = snd r @ [(Finish, raises (snd r) Finish)]"
  by (simp add: and_finally_def call_def split: option.splits)

lemma and_finally_returns:
  "raises (snd r) Finish = None \<Longrightarrow>
   and_finally r (call raises Finish) = (fst r, snd r @ [(Finish, None)])"
  by (simp add: and_finally_def call_def)

lemma and_finally_raises:
  "raises (snd r) Finish = Some e \<Longrightarrow>
   and_finally r (call raises Finish) = (Inl e, snd r @ [(Finish, Some e)])"
  by (simp add: and_finally_def call_def)

lemma train_after_init:
  "raises trace Init = None \<Longrightarrow>
   train raises config body trace =
     try_except_finally (body config) (on_error raises) (call raises Finish)
       (trace @ [(Init, None)])"
  by (simp add: train_def call_def)

lemma try_except_finally_last:
  "\<exists>before outcome.
     snd (try_except_finally body (on_error raises) (call raises Finish) trace) =
       before @ [(Finish, outcome)]"
  by (auto simp: try_except_finally_def and_finally_Finish split: prod.splits sum.splits)

lemma try_except_finally_raised:
  assumes "snd (try_except_finally body handler (call raises Finish) trace) =
      before @ [(Finish, Some e)]"
  shows "fst (try_except_finally body handler (call raises Finish) trace) = Inl e"
proof -
  have one: "fst (and_finally r (call raises Finish)) = Inl e"
    if "snd (and_finally r (call raises Finish)) = before @ [(Finish, Some e)]" for r
  proof (cases "raises (snd r) Finish")
    case None
    with that show ?thesis
      by (simp add: and_finally_returns)
  next
    case (Some e')
    with that show ?thesis
      by (simp add: and_finally_raises)
  qed
  from assms show ?thesis
    by (auto simp: try_except_finally_def one split: prod.splits sum.splits if_splits)
qed

text \<open>
  C9, as amended: whatever the configuration and the body, once \<open>wandb.init\<close> has
  returned, \<open>run.finish\<close> is the last call \<open>train\<close> makes on every path, and an
  exception it raises leaves \<open>train\<close>. With \<open>run.finish\<close> returning: when the body
  returns, \<open>train\<close> returns; an exception of the body that is an instance of
  \<open>Exception\<close> is logged, and when \<open>logger.error\<close> returns \<open>wandb.alert\<close> is called with
  the message of the exception; when that returns too, \<open>train\<close> returns normally, and
  when \<open>logger.error\<close> or \<open>wandb.alert\<close> raises, that exception leaves \<open>train\<close>; an
  exception of the body that is not an instance of \<open>Exception\<close> is not caught: no alert
  is sent and it leaves \<open>train\<close>.
\<close>

theorem train_finishes_run:
  assumes "raises trace Init = None"
    and "body config (trace @ [(Init, None)]) = (r, trace1)"
  shows "(\<exists>before outcome.
        snd (train raises config body trace) = before @ [(Finish, outcome)]) \<and>
     (\<forall>before e'.
        snd (train raises config body trace) = before @ [(Finish, Some e')] \<longrightarrow>
        fst (train raises config body trace) = Inl e') \<and>
     (r = Inr () \<and> raises trace1 Finish = None \<longrightarrow>
        train raises config body trace = (Inr (), trace1 @ [(Finish, None)])) \<and>
     (\<forall>e. r = Inl e \<and> is_Exception e \<and>
        raises trace1 (error_log e) = None \<and>
        raises (trace1 @ [(error_log e, None)]) (error_alert e) = None \<and>
        raises (trace1 @ [(error_log e, None), (error_alert e, None)]) Finish = None \<longrightarrow>
        train raises config body trace =
          (Inr (),
           trace1 @ [(error_log e, None), (error_alert e, None), (Finish, None)])) \<and>
     (\<forall>e e'. r = Inl e \<and> is_Exception e \<and>
        raises trace1 (error_log e) = None \<and>
        raises (trace1 @ [(error_log e, None)]) (error_alert e) = Some e' \<and>
        raises (trace1 @ [(error_log e, None), (error_alert e, Some e')]) Finish = None \<longrightarrow>
        train raises config body trace =
          (Inl e',
           trace1 @ [(error_log e, None), (error_alert e, Some e'), (Finish, None)])) \<and>
     (\<forall>e e'. r = Inl e \<and> is_Exception e \<and>
        raises trace1 (error_log e) = Some e' \<and>
        raises (trace1 @ [(error_log e, Some e')]) Finish = None \<longrightarrow>
        train raises config body trace =
          (Inl e', trace1 @ [(error_log e, Some e'), (Finish, None)])) \<and>
     (\<forall>e. r = Inl e \<and> \<not> is_Exception e \<and> raises trace1 Finish = None \<longrightarrow>
        train raises config body trace = (Inl e, trace1 @ [(Finish, None)]))"
proof -
  note unfold = train_after_init [of raises trace config body, OF assms(1)]
  have last: "\<exists>before outcome.
      snd (train raises config body trace) = before @ [(Finish, outcome)]"
    unfolding unfold by (rule try_except_finally_last)
  have raised: "fst (train raises config body trace) = Inl e'"
    if "snd (train raises config body trace) = before @ [(Finish, Some e')]" for before e'
    using that unfolding unfold by (rule try_except_finally_raised)
  have returned: "train raises config body trace = (Inr (), trace1 @ [(Finish, None)])"
    if "r = Inr ()" "raises trace1 Finish = None"
    using that assms(2) unfolding unfold
    by (simp add: try_except_finally_def and_finally_returns)
  have caught: "train raises config body trace =
      (Inr (), trace1 @ [(error_log e, None), (error_alert e, None), (Finish, None)])"
    if "r = Inl e" "is_Exception e" "raises trace1 (error_log e) = None"
      "raises (trace1 @ [(error_log e, None)]) (error_alert e) = None"
      "raises (trace1 @ [(error_log e, None), (error_alert e, None)]) Finish = None" for e
    using that assms(2) unfolding unfold
    by (simp add: try_except_finally_def on_error_def call_returns and_finally_returns)
  have alert_failed: "train raises config body trace =
      (Inl e', trace1 @ [(error_log e, None), (error_alert e, Some e'), (Finish, None)])"
    if "r = Inl e" "is_Exception e" "raises trace1 (error_log e) = None"
      "raises (trace1 @ [(error_log e, None)]) (error_alert e) = Some e'"
      "raises (trace1 @ [(error_log e, None), (error_alert e, Some e')]) Finish = None" for e e'
    using that assms(2) unfolding unfold
    by (simp add: try_except_finally_def on_error_def call_returns call_raises
        and_finally_returns)
  have log_failed: "train raises config body trace =
      (Inl e', trace1 @ [(error_log e, Some e'), (Finish, None)])"
    if "r = Inl e" "is_Exception e" "raises trace1 (error_log e) = Some e'"
      "raises (trace1 @ [(error_log e, Some e')]) Finish = None" for e e'
    using that assms(2) unfolding unfold
    by (simp add: try_except_finally_def on_error_def call_raises and_finally_returns)
  have passed: "train raises config body trace = (Inl e, trace1 @ [(Finish, None)])"
    if "r = Inl e" "\<not> is_Exception e" "raises trace1 Finish = None" for e
    using that assms(2) unfolding unfold
    by (simp add: try_except_finally_def and_finally_returns)
  from last raised returned caught alert_failed log_failed passed show ?thesis
    by blast
qed

lemma failing_body:
  "failing () ([] @ [(Init, None)]) = (Inl (Exn True ''CUDA out of memory''), [(Init, None)])"
  by (simp add: failing_def)

lemma failing_run:
  "train never_raises () failing [] =
     (Inr (),
      [(Init, None),
       (LoggerError ''Error during training or evaluation: CUDA out of memory'', None),
       (Alert ''Training or Evaluation Error''
          ''An error occurred during training or evaluation: CUDA out of memory'' ''ERROR'',
        None),
       (Finish, None)])"
  by (simp add: train_def try_except_finally_def and_finally_def on_error_def call_def
      never_raises_def failing_def error_log_def error_alert_def)

lemma failing_alert_run:
  "train alert_raises () failing [] =
     (Inl (Exn True ''ConnectionError''),
      [(Init, None),
       (LoggerError ''Error during training or evaluation: CUDA out of memory'', None),
       (Alert ''Training or Evaluation Error''
          ''An error occurred during training or evaluation: CUDA out of memory'' ''ERROR'',
        Some (Exn True ''ConnectionError'')),
       (Finish, None)])"
  by (simp add: train_def try_except_finally_def and_finally_def on_error_def call_def
      alert_raises_def failing_def error_log_def error_alert_def)

theorem train_finishes_run_witness:
  "never_raises [] Init = None \<and>
   failing () ([] @ [(Init, None)]) = (Inl (Exn True ''CUDA out of memory''), [(Init, None)]) \<and>
   is_Exception (Exn True ''CUDA out of memory'') \<and>
   train never_raises () failing [] =
     (Inr (),
      [(Init, None),
       (LoggerError ''Error during training or evaluation: CUDA out of memory'', None),
       (Alert ''Training or Evaluation Error''
          ''An error occurred during training or evaluation: CUDA out of memory'' ''ERROR'',
        None),
       (Finish, None)]) \<and>
   alert_raises [] Init = None \<and>
   train alert_raises () failing [] =
     (Inl (Exn True ''ConnectionError''),
      [(Init, None),
       (LoggerError ''Error during training or evaluation: CUDA out of memory'', None),
       (Alert ''Training or Evaluation Error''
          ''An error occurred during training or evaluation: CUDA out of memory'' ''ERROR'',
        Some (Exn True ''ConnectionError'')),
       (Finish, None)])"
proof -
  have init: "never_raises [] Init = None" "alert_raises [] Init = None"
    by (simp_all add: never_raises_def alert_raises_def)
  note caught = train_finishes_run [of never_raises "[]" failing "()"
      "Inl (Exn True ''CUDA out of memory'')" "[(Init, None)]", OF init(1) failing_body]
  note alert = train_finishes_run [of alert_raises "[]" failing "()"
      "Inl (Exn True ''CUDA out of memory'')" "[(Init, None)]", OF init(2) failing_body]
  from caught have "train never_raises () failing [] =
      (Inr (),
       [(Init, None)] @
       [(error_log (Exn True ''CUDA out of memory''), None),
        (error_alert (Exn True ''CUDA out of memory''), None), (Finish, None)])"
    by (simp add: never_raises_def)
  moreover from alert have "train alert_raises () failing [] =
      (Inl (Exn True ''ConnectionError''),
       [(Init, None)] @
       [(error_log (Exn True ''CUDA out of memory''), None),
        (error_alert (Exn True ''CUDA out of memory''), Some (Exn True ''ConnectionError'')),
        (Finish, None)])"
    by (simp add: alert_raises_def error_log_def error_alert_def)
  ultimately show ?thesis
    using init failing_body by (simp add: error_log_def error_alert_def)
qed

text \<open>
  C9 as stated fails: a body that raises \<open>KeyboardInterrupt\<close>, which is not an instance
  of \<open>Exception\<close>, is not caught by \<open>except Exception\<close>. With collaborators that never
  raise, \<open>train\<close> raises it to its caller after \<open>run.finish\<close>, and the trace holds no
  alert.
\<close>

theorem interrupt_leaves_train:
  "train never_raises () interrupted [] =
     (Inl (Exn False ''KeyboardInterrupt''), [(Init, None), (Finish, None)])"
  by (simp add: train_def try_except_finally_def and_finally_def call_def never_raises_def
      interrupted_def)

end
